theory Spec2Isabelle
  imports Complex_Main
begin

section \<open>Data model of \<open>convert_to_webdataset.py\<close>\<close>

text \<open>
  An element of a numeric array is a finite number, one of the two infinities, or NaN.
  \<open>np.isnan\<close> and \<open>np.isinf\<close> only look at which of these an element is.
\<close>

datatype npfloat = Finite rat | PosInf | NegInf | NaN

text \<open>
  An array is its shape and its elements in row-major order. The reductions the script
  uses (\<open>.any()\<close> with no axis) run over every element, whatever the rank.
\<close>

datatype ndarray = NDArray (shape: "nat list") (elems: "npfloat list")

text \<open>A dataset row: \<open>sample["input_features"]\<close> and \<open>sample["labels"]\<close>.\<close>

record sample =
  input_features :: ndarray
  labels :: ndarray

type_synonym dataset = "sample list"

text \<open>Byte strings (Isabelle characters are bytes).\<close>

type_synonym bytes = "char list"

text \<open>
  \<open>np.savez_compressed(buffer, name=array)\<close> followed by \<open>buffer.getvalue()\<close>: the
  library call is a parameter of the model, a function from the keyword name and the
  array to the bytes of the container.
\<close>

type_synonym savez = "string \<Rightarrow> ndarray \<Rightarrow> bytes"

text \<open>
  The dictionary handed to \<open>sink.write\<close>: the entries \<open>"__key__"\<close>, \<open>"input.npz"\<close>
  and \<open>"labels.npz"\<close>.
\<close>

record wds_record =
  key :: string
  input_npz :: bytes
  labels_npz :: bytes

text \<open>
  The observable world of the script: the archives on disk (a tar archive is the list of
  records written to it, in order), the directories created, and the lines printed.
\<close>

record world =
  files :: "string \<rightharpoonup> wds_record list"
  dirs :: "string set"
  stdout :: "string list"

text \<open>
  The effects of the script, in the order it performs them. A function of the script is
  modelled by the sequence of effects it performs; \<open>exec\<close> below applies them to a world.
\<close>

datatype io_op =
    Makedirs string
  | Print string
  | Tar_open string
  | Tar_write string wds_record
  | Tar_close string

datatype py_error = ZeroDivisionError | IndexError | ValueError

text \<open>The argument tuple of \<open>process_single_shard\<close>:
  \<open>(dataset, shard_idx, start_idx, output_dir, shard_size)\<close>.\<close>

type_synonym shard_task = "dataset \<times> int \<times> int \<times> string \<times> int"

section \<open>Python built-ins used by the script\<close>

definition digit_char :: "nat \<Rightarrow> char" where
  "digit_char d = ''0123456789'' ! d"

text \<open>\<open>str(n)\<close> for a non-negative integer.\<close>

fun str_nat :: "nat \<Rightarrow> string" where
  "str_nat n = (if n < 10 then [digit_char n] else str_nat (n div 10) @ [digit_char (n mod 10)])"

declare str_nat.simps [simp del]

definition zfill :: "nat \<Rightarrow> string \<Rightarrow> string" where
  "zfill w s = replicate (w - length s) (CHR ''0'') @ s"

text \<open>
  The format specification \<open>{i:0wd}\<close>: decimal digits, padded with zeros on the left to a
  minimum width \<open>w\<close>; the sign of a negative number comes first and counts in the width.
\<close>

definition format_0d :: "nat \<Rightarrow> int \<Rightarrow> string" where
  "format_0d w i =
     (if i < 0 then CHR ''-'' # zfill (w - 1) (str_nat (nat (- i)))
      else zfill w (str_nat (nat i)))"

text \<open>\<open>os.path.join(a, b)\<close> on POSIX, for two components.\<close>

definition os_path_join :: "string \<Rightarrow> string \<Rightarrow> string" where
  "os_path_join a b =
     (if b \<noteq> [] \<and> hd b = CHR ''/'' then b
      else if a = [] \<or> last a = CHR ''/'' then a @ b
      else a @ ''/'' @ b)"

text \<open>\<open>range(a, b)\<close>: \<open>a, a + 1, ..., b - 1\<close>, empty when \<open>b \<le> a\<close>.\<close>

definition py_range :: "int \<Rightarrow> int \<Rightarrow> int list" where
  "py_range a b = map (\<lambda>k. a + int k) [0..<nat (b - a)]"

text \<open>\<open>enumerate(xs)\<close> counting from \<open>j\<close>.\<close>

fun enumerate_from :: "nat \<Rightarrow> 'a list \<Rightarrow> (nat \<times> 'a) list" where
  "enumerate_from j [] = []"
| "enumerate_from j (x # xs) = (j, x) # enumerate_from (Suc j) xs"

section \<open>Library calls\<close>

definition is_nan :: "npfloat \<Rightarrow> bool" where
  "is_nan x = (case x of NaN \<Rightarrow> True | _ \<Rightarrow> False)"

definition is_inf :: "npfloat \<Rightarrow> bool" where
  "is_inf x = (case x of PosInf \<Rightarrow> True | NegInf \<Rightarrow> True | _ \<Rightarrow> False)"

definition is_finite :: "npfloat \<Rightarrow> bool" where
  "is_finite x = (case x of Finite _ \<Rightarrow> True | _ \<Rightarrow> False)"

text \<open>\<open>np.isnan(a)\<close>, \<open>np.isinf(a)\<close>: element-wise, as a flat list of booleans;
  \<open>.any()\<close>: some element is true.\<close>

definition np_isnan :: "ndarray \<Rightarrow> bool list" where
  "np_isnan a = map is_nan (elems a)"

definition np_isinf :: "ndarray \<Rightarrow> bool list" where
  "np_isinf a = map is_inf (elems a)"

definition np_any :: "bool list \<Rightarrow> bool" where
  "np_any bs = list_ex (\<lambda>b. b) bs"

text \<open>
  \<open>dataset.select(indices)\<close>: the rows at the given indices, in order. An index outside
  \<open>[0, len(dataset))\<close> is an \<open>IndexError\<close> in this model.
\<close>

definition select :: "dataset \<Rightarrow> int list \<Rightarrow> py_error + dataset" where
  "select ds idxs =
     (if list_all (\<lambda>i. 0 \<le> i \<and> i < int (length ds)) idxs
      then Inr (map (\<lambda>i. ds ! nat i) idxs)
      else Inl IndexError)"

text \<open>
  The effects on the world. \<open>wds.TarWriter(path)\<close> opens the path with mode \<open>"wb"\<close>:
  the file is created, or truncated when it exists. \<open>sink.write\<close> appends one record
  to the open archive. Failures of the file system itself are outside the model.
\<close>

fun exec_op :: "io_op \<Rightarrow> world \<Rightarrow> world" where
  "exec_op (Makedirs d) w = w\<lparr>dirs := insert d (dirs w)\<rparr>"
| "exec_op (Print s) w = w\<lparr>stdout := stdout w @ [s]\<rparr>"
| "exec_op (Tar_open p) w = w\<lparr>files := (files w)(p \<mapsto> [])\<rparr>"
| "exec_op (Tar_write p r) w =
     w\<lparr>files := (files w)(p := map_option (\<lambda>rs. rs @ [r]) (files w p))\<rparr>"
| "exec_op (Tar_close p) w = w"

definition exec :: "io_op list \<Rightarrow> world \<Rightarrow> world" where
  "exec ops w = fold exec_op ops w"

section \<open>The script\<close>

definition shard_path_of :: "string \<Rightarrow> int \<Rightarrow> string" where
  "shard_path_of output_dir shard_idx =
     os_path_join output_dir (''shard-'' @ format_0d 5 shard_idx @ ''.tar'')"

definition sample_key_of :: "nat \<Rightarrow> string" where
  "sample_key_of sample_idx = ''sample'' @ format_0d 6 (int sample_idx)"

definition skip_message :: "string \<Rightarrow> string" where
  "skip_message sample_key =
     ''Skipping sample '' @ sample_key @ '' due to NaN or Inf in input_features.''"

text \<open>The body of the \<open>for\<close> loop of \<open>save_shard\<close> (lines 24 to 42), over
  \<open>enumerate(shard_samples)\<close>.\<close>

fun save_shard_loop :: "savez \<Rightarrow> string \<Rightarrow> (nat \<times> sample) list \<Rightarrow> io_op list" where
  "save_shard_loop savez shard_path [] = []"
| "save_shard_loop savez shard_path ((sample_idx, sample) # rest) =
     (let sample_key = sample_key_of sample_idx in
      if np_any (np_isnan (input_features sample)) \<or> np_any (np_isinf (input_features sample))
      then Print (skip_message sample_key) # save_shard_loop savez shard_path rest
      else
        let input_buffer = savez ''input_features'' (input_features sample);
            label_buffer = savez ''labels'' (labels sample)
        in Tar_write shard_path
             \<lparr>key = sample_key, input_npz = input_buffer, labels_npz = label_buffer\<rparr>
           # save_shard_loop savez shard_path rest)"

definition save_shard :: "savez \<Rightarrow> string \<Rightarrow> int \<Rightarrow> sample list \<Rightarrow> io_op list" where
  "save_shard savez output_dir shard_idx shard_samples =
     (let shard_path = shard_path_of output_dir shard_idx in
      Tar_open shard_path
      # save_shard_loop savez shard_path (enumerate_from 0 shard_samples)
      @ [Tar_close shard_path])"

text \<open>The indices \<open>process_single_shard\<close> selects (line 55).\<close>

definition shard_indices :: "shard_task \<Rightarrow> int list" where
  "shard_indices args =
     (case args of (dataset, shard_idx, start_idx, output_dir, shard_size) \<Rightarrow>
        let end_idx = start_idx + shard_size
        in py_range start_idx (min (int (length dataset)) end_idx))"

text \<open>\<open>process_single_shard\<close>: its effects and the shard index it returns.\<close>

definition process_single_shard :: "savez \<Rightarrow> shard_task \<Rightarrow> py_error + (io_op list \<times> int)" where
  "process_single_shard savez args =
     (case args of (dataset, shard_idx, start_idx, output_dir, shard_size) \<Rightarrow>
        (case select dataset (shard_indices args) of
           Inl e \<Rightarrow> Inl e
         | Inr shard_samples \<Rightarrow>
             Inr (save_shard savez output_dir shard_idx shard_samples, shard_idx)))"

text \<open>Lines 72 to 79 of \<open>create_webdataset\<close>: the number of shards and the task list.
  Python's \<open>//\<close> is floor division, as \<open>div\<close> on \<open>int\<close>; a zero divisor raises.\<close>

definition total_shards_of :: "dataset \<Rightarrow> int \<Rightarrow> py_error + int" where
  "total_shards_of dataset shard_size =
     (let total_samples = int (length dataset) in
      if shard_size = 0 then Inl ZeroDivisionError
      else Inr ((total_samples + shard_size - 1) div shard_size))"

definition shard_tasks_of :: "dataset \<Rightarrow> string \<Rightarrow> int \<Rightarrow> int \<Rightarrow> int \<Rightarrow> shard_task list" where
  "shard_tasks_of dataset output_dir shard_size shard_start_idx total_shards =
     map (\<lambda>i. (dataset, shard_start_idx + i, i * shard_size, output_dir, shard_size))
       (py_range 0 total_shards)"

text \<open>The effects of each task of a list, one trace per task; the first error wins.\<close>

fun task_traces :: "savez \<Rightarrow> shard_task list \<Rightarrow> py_error + io_op list list" where
  "task_traces savez [] = Inr []"
| "task_traces savez (t # ts) =
     (case process_single_shard savez t of
        Inl e \<Rightarrow> Inl e
      | Inr (ops, _) \<Rightarrow>
          (case task_traces savez ts of Inl e \<Rightarrow> Inl e | Inr trs \<Rightarrow> Inr (ops # trs)))"

text \<open>
  \<open>pool.imap_unordered\<close>: the workers run the tasks concurrently, so the effects of the
  tasks are interleaved. A schedule names, step by step, the task whose next effect
  happens; \<open>imap_unordered\<close> is the interleaving a schedule gives, defined when the schedule
  runs every task to its end and never steps a finished task.
\<close>

fun imap_unordered :: "nat list \<Rightarrow> io_op list list \<Rightarrow> io_op list option" where
  "imap_unordered [] trs = (if list_all (\<lambda>t. t = []) trs then Some [] else None)"
| "imap_unordered (i # sched) trs =
     (if i < length trs then
        (case trs ! i of
           [] \<Rightarrow> None
         | x # rest \<Rightarrow> map_option ((#) x) (imap_unordered sched (trs[i := rest])))
      else None)"

text \<open>The schedule that runs the tasks one after the other, in the order of the list.\<close>

definition in_order :: "io_op list list \<Rightarrow> nat list" where
  "in_order trs = concat (map (\<lambda>i. replicate (length (trs ! i)) i) [0..<length trs])"

text \<open>
  \<open>create_webdataset\<close> under a schedule of the pool: the effects of the run, or the
  exception it raises. \<open>Pool(num_proc)\<close> raises \<open>ValueError\<close> when \<open>num_proc < 1\<close>.
  \<open>None\<close>: the schedule is not one of this run. The shard indices the tasks return are
  discarded by the loop; the progress bar goes to the standard error stream and is not
  part of the world.
\<close>

definition create_webdataset ::
  "savez \<Rightarrow> dataset \<Rightarrow> string \<Rightarrow> int \<Rightarrow> int \<Rightarrow> int \<Rightarrow> nat list \<Rightarrow> (py_error + io_op list) option" where
  "create_webdataset savez dataset output_dir shard_size num_proc shard_start_idx sched =
     (let total_samples = length dataset;
          prologue = [Makedirs output_dir,
                      Print (''Total samples in dataset: '' @ str_nat total_samples)]
      in case total_shards_of dataset shard_size of
           Inl e \<Rightarrow> Some (Inl e)
         | Inr total_shards \<Rightarrow>
             let shard_tasks =
                   shard_tasks_of dataset output_dir shard_size shard_start_idx total_shards
             in if num_proc < 1 then Some (Inl ValueError)
                else (case task_traces savez shard_tasks of
                        Inl e \<Rightarrow> Some (Inl e)
                      | Inr trs \<Rightarrow>
                          map_option (\<lambda>ops. Inr (prologue @ ops)) (imap_unordered sched trs)))"

section \<open>Vocabulary of the properties\<close>

text \<open>
  An array is all-finite when no element is NaN or infinite. \<open>record_of\<close> is the record
  \<open>save_shard\<close> builds for the sample at a position; \<open>written_records\<close> lists these
  records for the all-finite samples of a slice, in the order of the slice.
\<close>

definition all_finite :: "ndarray \<Rightarrow> bool" where
  "all_finite a = list_all is_finite (elems a)"

definition record_of :: "savez \<Rightarrow> nat \<times> sample \<Rightarrow> wds_record" where
  "record_of savez js =
     \<lparr>key = sample_key_of (fst js),
      input_npz = savez ''input_features'' (input_features (snd js)),
      labels_npz = savez ''labels'' (labels (snd js))\<rparr>"

definition valid_positions :: "(nat \<times> sample) list \<Rightarrow> (nat \<times> sample) list" where
  "valid_positions js = filter (\<lambda>js. all_finite (input_features (snd js))) js"

definition written_records :: "savez \<Rightarrow> sample list \<Rightarrow> wds_record list" where
  "written_records savez samples =
     map (record_of savez) (valid_positions (enumerate_from 0 samples))"

text \<open>
  The rows \<open>i * shard_size, ..., i * shard_size + shard_size - 1\<close> of the dataset, as far
  as they exist, and the effects of the tasks \<open>create_webdataset\<close> plans.
\<close>

definition shard_slice :: "dataset \<Rightarrow> int \<Rightarrow> nat \<Rightarrow> sample list" where
  "shard_slice dataset shard_size i = take (nat shard_size) (drop (i * nat shard_size) dataset)"

definition planned_traces :: "savez \<Rightarrow> dataset \<Rightarrow> string \<Rightarrow> int \<Rightarrow> int \<Rightarrow> io_op list list" where
  "planned_traces savez dataset output_dir shard_size shard_start_idx =
     map (\<lambda>i. save_shard savez output_dir (shard_start_idx + int i) (shard_slice dataset shard_size i))
       [0..<nat ((int (length dataset) + shard_size - 1) div shard_size)]"

text \<open>
  Projections of a sequence of effects: what one effect does to the archive at a path,
  the path an effect touches, and the lines a sequence prints.
\<close>

fun file_step :: "string \<Rightarrow> io_op \<Rightarrow> wds_record list option \<Rightarrow> wds_record list option" where
  "file_step p (Tar_open q) c = (if q = p then Some [] else c)"
| "file_step p (Tar_write q r) c = (if q = p then map_option (\<lambda>rs. rs @ [r]) c else c)"
| "file_step p _ c = c"

fun op_path :: "io_op \<Rightarrow> string option" where
  "op_path (Tar_open q) = Some q"
| "op_path (Tar_write q r) = Some q"
| "op_path (Tar_close q) = Some q"
| "op_path _ = None"

fun printed :: "io_op list \<Rightarrow> string list" where
  "printed [] = []"
| "printed (Print s # ops) = s # printed ops"
| "printed (_ # ops) = printed ops"

text \<open>
  A world with no files and nothing printed, and the number of skip diagnostics on the
  standard output.
\<close>

definition initial_world :: world where
  "initial_world = \<lparr>files = Map.empty, dirs = {}, stdout = []\<rparr>"

definition is_skip_line :: "string \<Rightarrow> bool" where
  "is_skip_line s = (take 16 s = ''Skipping sample '')"

definition skipped_count :: "world \<Rightarrow> nat" where
  "skipped_count w = length (filter is_skip_line (stdout w))"

fun is_skip_op :: "io_op \<Rightarrow> bool" where
  "is_skip_op (Print s) = is_skip_line s"
| "is_skip_op _ = False"

text \<open>Reading a decimal string back, to show that formatting loses nothing.\<close>

definition digit_val :: "char \<Rightarrow> nat" where
  "digit_val c = of_char c - 48"

definition nat_of_digits :: "string \<Rightarrow> nat" where
  "nat_of_digits s = foldl (\<lambda>a c. 10 * a + digit_val c) 0 s"

section \<open>Example data\<close>

text \<open>
  Three rows: one with finite features and a NaN label, one with a NaN feature, one with
  an infinite feature; a dataset of three rows; a stand-in encoder; the effects of two
  runs over the dataset with a shard size of 2, under two schedules of the pool; the
  effects of a run whose only shard has no valid sample; and an output directory that
  already holds a shard from an earlier run.
\<close>

definition example_ok :: sample where
  "example_ok = \<lparr>input_features = NDArray [2] [Finite 0, Finite (1 / 10)],
                  labels = NDArray [2] [Finite 7, NaN]\<rparr>"

definition example_nan :: sample where
  "example_nan = \<lparr>input_features = NDArray [2] [NaN, Finite (1 / 10)],
                   labels = NDArray [1] [Finite 7]\<rparr>"

definition example_inf :: sample where
  "example_inf = \<lparr>input_features = NDArray [2] [Finite 1, NegInf],
                   labels = NDArray [1] [Finite 7]\<rparr>"

definition example_dataset :: dataset where
  "example_dataset = [example_ok, example_nan, example_ok]"

definition example_savez :: savez where
  "example_savez name a =
     name @ '':'' @ map (\<lambda>x. if is_nan x then CHR ''n'' else if is_inf x then CHR ''i'' else CHR ''f'') (elems a)"

definition example_record :: wds_record where
  "example_record =
     \<lparr>key = ''sample000000'', input_npz = ''input_features:ff'', labels_npz = ''labels:fn''\<rparr>"

definition example_interleaved_ops :: "io_op list" where
  "example_interleaved_ops =
     [Makedirs ''out'', Print ''Total samples in dataset: 3'',
      Tar_open ''out/shard-00001.tar'', Tar_open ''out/shard-00000.tar'',
      Tar_write ''out/shard-00000.tar'' example_record,
      Tar_write ''out/shard-00001.tar'' example_record,
      Print ''Skipping sample sample000001 due to NaN or Inf in input_features.'',
      Tar_close ''out/shard-00001.tar'', Tar_close ''out/shard-00000.tar'']"

definition example_in_order_ops :: "io_op list" where
  "example_in_order_ops =
     [Makedirs ''out'', Print ''Total samples in dataset: 3'',
      Tar_open ''out/shard-00000.tar'',
      Tar_write ''out/shard-00000.tar'' example_record,
      Print ''Skipping sample sample000001 due to NaN or Inf in input_features.'',
      Tar_close ''out/shard-00000.tar'',
      Tar_open ''out/shard-00001.tar'',
      Tar_write ''out/shard-00001.tar'' example_record,
      Tar_close ''out/shard-00001.tar'']"

definition example_skipped_ops :: "io_op list" where
  "example_skipped_ops =
     [Makedirs ''out'', Print ''Total samples in dataset: 2'',
      Tar_open ''out/shard-00000.tar'',
      Print ''Skipping sample sample000000 due to NaN or Inf in input_features.'',
      Print ''Skipping sample sample000001 due to NaN or Inf in input_features.'',
      Tar_close ''out/shard-00000.tar'']"

definition example_old_world :: world where
  "example_old_world =
     \<lparr>files = [''out/shard-00000.tar'' \<mapsto>
                 [\<lparr>key = ''sample000000'', input_npz = ''old'', labels_npz = ''old''\<rparr>,
                  \<lparr>key = ''sample000001'', input_npz = ''old'', labels_npz = ''old''\<rparr>]],
      dirs = {''out''}, stdout = []\<rparr>"

section \<open>A model of the array container\<close>

text \<open>
  Modelled from the spec: \<open>np.savez_compressed\<close> and the \<open>np.load\<close> that reads its
  output back are numpy's and are not part of the repository. The spec asks of the
  container that it is self-describing, holds one named array and loses nothing.
  \<open>model_savez\<close> is one such container: it writes the name, the shape and the elements
  of the array as a sequence of numbers, each number in unary; \<open>model_load\<close> reads
  them back. The round trip of a record is proved for every encoder and decoder with
  that property; this pair shows that the property can be met.
\<close>

definition unary :: "nat \<Rightarrow> bytes" where
  "unary n = replicate n (CHR ''1'') @ [CHR ''0'']"

fun read_unary :: "nat \<Rightarrow> bytes \<Rightarrow> nat list" where
  "read_unary n [] = []"
| "read_unary n (c # cs) =
     (if c = CHR ''1'' then read_unary (Suc n) cs else n # read_unary 0 cs)"

fun float_tokens :: "npfloat \<Rightarrow> nat list" where
  "float_tokens (Finite r) =
     [0, if fst (quotient_of r) < 0 then 1 else 0,
      nat \<bar>fst (quotient_of r)\<bar>, nat (snd (quotient_of r))]"
| "float_tokens PosInf = [1, 0, 0, 0]"
| "float_tokens NegInf = [2, 0, 0, 0]"
| "float_tokens NaN = [3, 0, 0, 0]"

fun floats_of_tokens :: "nat list \<Rightarrow> npfloat list" where
  "floats_of_tokens (t # s # a # b # rest) =
     (if t = 0 then Finite (Fract (if s = 1 then - int a else int a) (int b))
      else if t = 1 then PosInf
      else if t = 2 then NegInf
      else NaN) # floats_of_tokens rest"
| "floats_of_tokens _ = []"

definition array_tokens :: "string \<Rightarrow> ndarray \<Rightarrow> nat list" where
  "array_tokens name a =
     length name # map of_char name
     @ length (shape a) # shape a
     @ concat (map float_tokens (elems a))"

definition model_savez :: savez where
  "model_savez name a = concat (map unary (array_tokens name a))"

definition model_load :: "bytes \<Rightarrow> (string \<times> ndarray) option" where
  "model_load b =
     (case read_unary 0 b of
        [] \<Rightarrow> None
      | n # ts \<Rightarrow>
          (case drop n ts of
             [] \<Rightarrow> None
           | m # us \<Rightarrow>
               Some (map char_of (take n ts),
                     NDArray (take m us) (floats_of_tokens (drop m us)))))"

section \<open>Lemmas\<close>

subsection \<open>Formatting is injective\<close>

lemma digit_val_digit_char: "d < 10 \<Longrightarrow> digit_val (digit_char d) = d"
proof -
  assume "d < 10"
  then have "d \<in> {0,1,2,3,4,5,6,7,8,9}" by auto
  then show ?thesis
    by (auto simp: digit_char_def digit_val_def)
qed

lemma digit_char_in: "d < 10 \<Longrightarrow> digit_char d \<in> set ''0123456789''"
  unfolding digit_char_def by (rule nth_mem) simp

lemma nat_of_digits_snoc: "nat_of_digits (s @ [c]) = 10 * nat_of_digits s + digit_val c"
  by (simp add: nat_of_digits_def)

lemma nat_of_digits_str_nat: "nat_of_digits (str_nat n) = n"
proof (induction n rule: str_nat.induct)
  case (1 n)
  show ?case
  proof (cases "n < 10")
    case True
    then show ?thesis
      by (subst str_nat.simps) (simp add: nat_of_digits_def digit_val_digit_char)
  next
    case False
    then have "nat_of_digits (str_nat (n div 10)) = n div 10" using 1 by simp
    with False show ?thesis
      by (subst str_nat.simps) (simp add: nat_of_digits_snoc digit_val_digit_char)
  qed
qed

lemma nat_of_digits_zeros: "nat_of_digits (replicate k (CHR ''0'') @ s) = nat_of_digits s"
proof (induction k)
  case 0
  then show ?case by simp
next
  case (Suc k)
  have "foldl (\<lambda>a c. 10 * a + digit_val c) 0 (CHR ''0'' # replicate k (CHR ''0'') @ s)
        = foldl (\<lambda>a c. 10 * a + digit_val c) 0 (replicate k (CHR ''0'') @ s)"
    by (simp add: digit_val_def)
  with Suc show ?case by (simp add: nat_of_digits_def)
qed

lemma nat_of_digits_zfill: "nat_of_digits (zfill w (str_nat n)) = n"
  by (simp add: zfill_def nat_of_digits_zeros nat_of_digits_str_nat)

lemma str_nat_digits: "set (str_nat n) \<subseteq> set ''0123456789''"
proof (induction n rule: str_nat.induct)
  case (1 n)
  show ?case
  proof (cases "n < 10")
    case True
    then show ?thesis
      using digit_char_in [of n] by (subst str_nat.simps) simp
  next
    case False
    then have "set (str_nat (n div 10)) \<subseteq> set ''0123456789''" using 1 by simp
    moreover have "digit_char (n mod 10) \<in> set ''0123456789''"
      by (rule digit_char_in) simp
    ultimately show ?thesis using False
      by (subst str_nat.simps) simp
  qed
qed

lemma str_nat_nonempty: "str_nat n \<noteq> []"
  by (subst str_nat.simps) simp

lemma zfill_no_minus: "hd (zfill w (str_nat n)) \<noteq> CHR ''-''"
proof -
  have ne: "zfill w (str_nat n) \<noteq> []" by (simp add: zfill_def str_nat_nonempty)
  have "set (zfill w (str_nat n)) \<subseteq> set ''0123456789''"
    using str_nat_digits [of n] by (auto simp: zfill_def)
  with ne have "hd (zfill w (str_nat n)) \<in> set ''0123456789''"
    using hd_in_set by blast
  then show ?thesis by auto
qed

lemma format_0d_inj: "format_0d w i = format_0d w j \<Longrightarrow> i = j"
proof -
  assume eq: "format_0d w i = format_0d w j"
  consider (nn) "i < 0" "j < 0" | (pp) "0 \<le> i" "0 \<le> j" | (np) "i < 0" "0 \<le> j" | (pn) "0 \<le> i" "j < 0"
    by linarith
  then show ?thesis
  proof cases
    case nn
    with eq have "zfill (w - 1) (str_nat (nat (- i))) = zfill (w - 1) (str_nat (nat (- j)))"
      by (simp add: format_0d_def)
    then have "nat (- i) = nat (- j)"
      using nat_of_digits_zfill by metis
    with nn show ?thesis by simp
  next
    case pp
    with eq have "zfill w (str_nat (nat i)) = zfill w (str_nat (nat j))"
      by (simp add: format_0d_def)
    then have "nat i = nat j"
      using nat_of_digits_zfill by metis
    with pp show ?thesis by simp
  next
    case np
    with eq have "CHR ''-'' # zfill (w - 1) (str_nat (nat (- i))) = zfill w (str_nat (nat j))"
      by (simp add: format_0d_def)
    then have "hd (zfill w (str_nat (nat j))) = CHR ''-''"
      by (metis list.sel(1))
    then show ?thesis using zfill_no_minus by blast
  next
    case pn
    with eq have "zfill w (str_nat (nat i)) = CHR ''-'' # zfill (w - 1) (str_nat (nat (- j)))"
      by (simp add: format_0d_def)
    then have "hd (zfill w (str_nat (nat i))) = CHR ''-''"
      by (metis list.sel(1))
    then show ?thesis using zfill_no_minus by blast
  qed
qed

lemma os_path_join_inj:
  "hd b \<noteq> CHR ''/'' \<Longrightarrow> hd c \<noteq> CHR ''/'' \<Longrightarrow> os_path_join a b = os_path_join a c \<Longrightarrow> b = c"
  by (auto simp: os_path_join_def split: if_splits)

lemma shard_path_of_inj: "shard_path_of d i = shard_path_of d j \<Longrightarrow> i = j"
proof -
  assume "shard_path_of d i = shard_path_of d j"
  then have "''shard-'' @ format_0d 5 i @ ''.tar'' = ''shard-'' @ format_0d 5 j @ ''.tar''"
    unfolding shard_path_of_def by (rule os_path_join_inj [rotated 2]) simp_all
  then have "format_0d 5 i = format_0d 5 j" by simp
  then show ?thesis by (rule format_0d_inj)
qed

lemma sample_key_of_inj: "sample_key_of i = sample_key_of j \<Longrightarrow> i = j"
  using format_0d_inj [of 6 "int i" "int j"] by (simp add: sample_key_of_def)

subsection \<open>Effects of \<open>save_shard\<close>\<close>

lemma invalid_iff: "(np_any (np_isnan a) \<or> np_any (np_isinf a)) = (\<not> all_finite a)"
proof -
  have h: "\<And>x. is_finite x = (\<not> is_nan x \<and> \<not> is_inf x)"
    by (simp add: is_nan_def is_inf_def is_finite_def split: npfloat.split)
  show ?thesis
    unfolding np_any_def np_isnan_def np_isinf_def all_finite_def list_ex_iff list_all_iff h
    by auto
qed

lemma exec_Nil: "exec [] w = w"
  by (simp add: exec_def)

lemma exec_Cons: "exec (x # ops) w = exec ops (exec_op x w)"
  by (simp add: exec_def)

lemma files_exec_op: "files (exec_op x w) p = file_step p x (files w p)"
  by (cases x) auto

lemma files_exec: "files (exec ops w) p = fold (file_step p) ops (files w p)"
proof (induction ops arbitrary: w)
  case Nil
  show ?case by (simp add: exec_Nil)
next
  case (Cons x ops)
  show ?case by (simp add: exec_Cons Cons.IH files_exec_op)
qed

lemma stdout_exec_op: "stdout (exec_op x w) = stdout w @ printed [x]"
  by (cases x) auto

lemma printed_Cons: "printed (x # ops) = printed [x] @ printed ops"
  by (cases x) auto

lemma printed_append: "printed (a @ b) = printed a @ printed b"
proof (induction a)
  case Nil
  show ?case by simp
next
  case (Cons x a)
  then show ?case using printed_Cons [of x "a @ b"] printed_Cons [of x a] by simp
qed

lemma stdout_exec: "stdout (exec ops w) = stdout w @ printed ops"
proof (induction ops arbitrary: w)
  case Nil
  show ?case by (simp add: exec_Nil)
next
  case (Cons x ops)
  show ?case
    using printed_Cons [of x ops] by (simp add: exec_Cons Cons.IH stdout_exec_op)
qed

lemma file_step_other: "op_path x \<noteq> Some p \<Longrightarrow> file_step p x c = c"
  by (cases x) auto

lemma fold_file_step_filter:
  "fold (file_step p) (filter (\<lambda>x. op_path x = Some p) ops) c = fold (file_step p) ops c"
  by (induction ops arbitrary: c) (auto simp: file_step_other)

lemma loop_paths: "x \<in> set (save_shard_loop savez p js) \<Longrightarrow> op_path x = Some p \<or> op_path x = None"
  by (induction savez p js rule: save_shard_loop.induct) (auto simp: Let_def split: if_splits)

lemma loop_file:
  "fold (file_step p) (save_shard_loop savez p js) c =
     map_option (\<lambda>rs. rs @ map (record_of savez) (valid_positions js)) c"
proof (induction js arbitrary: c)
  case Nil
  show ?case by (simp add: valid_positions_def option.map_ident)
next
  case (Cons a js)
  obtain j s where a: "a = (j, s)" by (cases a)
  show ?case
  proof (cases "all_finite (input_features s)")
    case True
    then show ?thesis
      using invalid_iff [of "input_features s"]
      by (cases c) (simp_all add: a Cons.IH valid_positions_def record_of_def Let_def)
  next
    case False
    then show ?thesis
      using invalid_iff [of "input_features s"]
      by (simp add: a Cons.IH valid_positions_def Let_def)
  qed
qed

lemma loop_printed:
  "printed (save_shard_loop savez p js) =
     map (\<lambda>js. skip_message (sample_key_of (fst js)))
       (filter (\<lambda>js. \<not> all_finite (input_features (snd js))) js)"
proof (induction js)
  case Nil
  show ?case by simp
next
  case (Cons a js)
  obtain j s where a: "a = (j, s)" by (cases a)
  show ?case
    using invalid_iff [of "input_features s"]
    by (cases "all_finite (input_features s)") (simp_all add: a Cons.IH Let_def)
qed

lemma save_shard_file:
  "fold (file_step (shard_path_of output_dir shard_idx))
     (save_shard savez output_dir shard_idx samples) c = Some (written_records savez samples)"
  by (simp add: save_shard_def Let_def loop_file written_records_def)

lemma save_shard_paths:
  "x \<in> set (save_shard savez output_dir shard_idx samples) \<Longrightarrow>
     op_path x = Some (shard_path_of output_dir shard_idx) \<or> op_path x = None"
  using loop_paths [of x savez "shard_path_of output_dir shard_idx" "enumerate_from 0 samples"]
  by (auto simp: save_shard_def Let_def)

lemma save_shard_printed:
  "printed (save_shard savez output_dir shard_idx samples) =
     map (\<lambda>js. skip_message (sample_key_of (fst js)))
       (filter (\<lambda>js. \<not> all_finite (input_features (snd js))) (enumerate_from 0 samples))"
  by (simp add: save_shard_def Let_def printed_append loop_printed)

lemma enumerate_from_zip: "enumerate_from j xs = zip [j..<j + length xs] xs"
proof (induction xs arbitrary: j)
  case Nil
  show ?case by simp
next
  case (Cons x xs)
  have "[j..<j + length (x # xs)] = j # [Suc j..<Suc j + length xs]"
    by (simp add: upt_rec)
  then show ?case by (simp add: Cons.IH)
qed

lemma length_enumerate_from: "length (enumerate_from j xs) = length xs"
  by (simp add: enumerate_from_zip)

lemma nth_enumerate_from: "i < length xs \<Longrightarrow> enumerate_from j xs ! i = (j + i, xs ! i)"
  by (simp add: enumerate_from_zip)

subsection \<open>Ranges, shard counts and slices\<close>

lemma length_py_range: "length (py_range a b) = nat (b - a)"
  by (simp add: py_range_def)

lemma nth_py_range: "i < nat (b - a) \<Longrightarrow> py_range a b ! i = a + int i"
  by (simp add: py_range_def)

lemma set_py_range: "k \<in> set (py_range a b) \<longleftrightarrow> a \<le> k \<and> k < b"
proof
  assume "k \<in> set (py_range a b)"
  then obtain m where "m < nat (b - a)" "k = a + int m"
    by (auto simp: py_range_def)
  then show "a \<le> k \<and> k < b" by linarith
next
  assume h: "a \<le> k \<and> k < b"
  then have "nat (k - a) < nat (b - a)" "k = a + int (nat (k - a))" by auto
  then show "k \<in> set (py_range a b)"
    unfolding py_range_def by (metis (no_types, lifting) atLeast0LessThan image_eqI lessThan_iff set_map set_upt)
qed

lemma py_range_nat: "py_range 0 t = map int [0..<nat t]"
  by (simp add: py_range_def)

lemma py_range_append:
  assumes "a \<le> b" "b \<le> c"
  shows "py_range a b @ py_range b c = py_range a c"
proof (rule nth_equalityI)
  show "length (py_range a b @ py_range b c) = length (py_range a c)"
    using assms by (simp add: length_py_range)
next
  fix i assume "i < length (py_range a b @ py_range b c)"
  then have i: "i < nat (c - a)" using assms by (simp add: length_py_range)
  show "(py_range a b @ py_range b c) ! i = py_range a c ! i"
  proof (cases "i < nat (b - a)")
    case True
    then show ?thesis using i by (simp add: nth_append length_py_range nth_py_range)
  next
    case False
    then have "i - nat (b - a) < nat (c - b)" using i assms by linarith
    then show ?thesis
      using False i assms by (simp add: nth_append length_py_range nth_py_range)
  qed
qed

lemma total_shards_mult:
  assumes "0 < (s::int)"
  shows "(n + s - 1) div s * s \<le> n + s - 1" and "n \<le> (n + s - 1) div s * s"
proof -
  have eq: "(n + s - 1) div s * s = (n + s - 1) - (n + s - 1) mod s"
    by (simp add: minus_mod_eq_div_mult)
  have "0 \<le> (n + s - 1) mod s" "(n + s - 1) mod s < s"
    using assms by simp_all
  then show "(n + s - 1) div s * s \<le> n + s - 1" and "n \<le> (n + s - 1) div s * s"
    using eq by linarith+
qed

lemma total_shards_ceiling:
  assumes "0 < (s::int)"
  shows "(n + s - 1) div s = \<lceil>real_of_int n / real_of_int s\<rceil>"
proof -
  let ?q = "(n + s - 1) div s"
  have "- n = s * (- ?q) + (?q * s - n)" by (simp add: algebra_simps)
  moreover have "0 \<le> ?q * s - n" "?q * s - n < s"
    using total_shards_mult [OF assms, of n] by linarith+
  ultimately have "- n div s = - ?q" by (rule int_div_pos_eq)
  then show ?thesis by (simp add: ceiling_divide_eq_div)
qed

lemma total_shards_nonneg: "0 < (s::int) \<Longrightarrow> 0 \<le> n \<Longrightarrow> 0 \<le> (n + s - 1) div s"
  by (simp add: pos_imp_zdiv_nonneg_iff)

lemma task_start_in_range:
  assumes "0 < (s::int)" "int i < (n + s - 1) div s"
  shows "int i * s < n"
proof -
  have "int i + 1 \<le> (n + s - 1) div s" using assms by simp
  then have "(int i + 1) * s \<le> (n + s - 1) div s * s"
    using assms(1) by (simp add: mult_right_mono)
  also have "\<dots> \<le> n + s - 1" using assms(1) by (rule total_shards_mult)
  finally show ?thesis by (simp add: algebra_simps)
qed

lemma select_range:
  assumes "0 \<le> a" "a \<le> b" "b \<le> int (length ds)"
  shows "select ds (py_range a b) = Inr (take (nat (b - a)) (drop (nat a) ds))"
proof -
  have ok: "list_all (\<lambda>i. 0 \<le> i \<and> i < int (length ds)) (py_range a b)"
    using assms by (auto simp: list_all_iff set_py_range)
  have "map (\<lambda>i. ds ! nat i) (py_range a b) = take (nat (b - a)) (drop (nat a) ds)"
  proof (rule nth_equalityI)
    show "length (map (\<lambda>i. ds ! nat i) (py_range a b)) = length (take (nat (b - a)) (drop (nat a) ds))"
      using assms by (simp add: length_py_range)
  next
    fix i assume "i < length (map (\<lambda>i. ds ! nat i) (py_range a b))"
    then have i: "i < nat (b - a)" by (simp add: length_py_range)
    then have "nat (a + int i) = nat a + i" using assms by linarith
    then show "map (\<lambda>i. ds ! nat i) (py_range a b) ! i = take (nat (b - a)) (drop (nat a) ds) ! i"
      using i assms by (simp add: length_py_range nth_py_range)
  qed
  with ok show ?thesis by (simp add: select_def)
qed

lemma shard_tasks_of_nat:
  "shard_tasks_of dataset output_dir shard_size shard_start_idx total_shards =
     map (\<lambda>i. (dataset, shard_start_idx + int i, int i * shard_size, output_dir, shard_size))
       [0..<nat total_shards]"
  by (simp add: shard_tasks_of_def py_range_nat comp_def)

lemma planned_shard_indices:
  "shard_indices (dataset, shard_idx, int i * shard_size, output_dir, shard_size) =
     py_range (int i * shard_size) (min (int (length dataset)) (int i * shard_size + shard_size))"
  by (simp add: shard_indices_def Let_def)

lemma planned_select:
  assumes "0 < shard_size" "int i < (int (length dataset) + shard_size - 1) div shard_size"
  shows "select dataset (shard_indices (dataset, shard_idx, int i * shard_size, output_dir, shard_size))
         = Inr (shard_slice dataset shard_size i)"
proof -
  let ?n = "int (length dataset)"
  let ?a = "int i * shard_size"
  let ?b = "min ?n (?a + shard_size)"
  have lt: "?a < ?n" using assms by (rule task_start_in_range)
  have a0: "0 \<le> ?a" using assms(1) by simp
  have ab: "?a \<le> ?b" using lt assms(1) by simp
  have na: "nat ?a = i * nat shard_size"
    using assms(1) by (simp add: nat_mult_distrib)
  have "take (nat (?b - ?a)) (drop (nat ?a) dataset) = take (nat shard_size) (drop (nat ?a) dataset)"
  proof (cases "?a + shard_size \<le> ?n")
    case True
    then show ?thesis by (simp add: min_def)
  next
    case False
    then have "?b = ?n" by simp
    moreover have "length (drop (nat ?a) dataset) \<le> nat shard_size"
      using False a0 by simp
    moreover have "length (drop (nat ?a) dataset) \<le> nat (?n - ?a)"
      using a0 by simp
    ultimately show ?thesis by simp
  qed
  then show ?thesis
    using select_range [OF a0 ab, of dataset] by (simp add: planned_shard_indices shard_slice_def na)
qed

lemma planned_process:
  assumes "0 < shard_size" "int i < (int (length dataset) + shard_size - 1) div shard_size"
  shows "process_single_shard savez (dataset, shard_idx, int i * shard_size, output_dir, shard_size)
         = Inr (save_shard savez output_dir shard_idx (shard_slice dataset shard_size i), shard_idx)"
  using planned_select [OF assms] by (simp add: process_single_shard_def)

lemma task_traces_map:
  "\<forall>t\<in>set ts. process_single_shard savez t = Inr (f t, g t) \<Longrightarrow>
     task_traces savez ts = Inr (map f ts)"
  by (induction ts) auto

lemma planned_task_traces:
  assumes "0 < shard_size"
  shows "task_traces savez
           (shard_tasks_of dataset output_dir shard_size shard_start_idx
              ((int (length dataset) + shard_size - 1) div shard_size))
         = Inr (planned_traces savez dataset output_dir shard_size shard_start_idx)"
proof -
  let ?T = "(int (length dataset) + shard_size - 1) div shard_size"
  let ?f = "\<lambda>t::shard_task. case t of (d, idx, st, out, sz) \<Rightarrow>
              save_shard savez out idx (shard_slice d sz (nat (st div sz)))"
  let ?g = "\<lambda>t::shard_task. case t of (d, idx, st, out, sz) \<Rightarrow> idx"
  have "\<forall>t\<in>set (shard_tasks_of dataset output_dir shard_size shard_start_idx ?T).
          process_single_shard savez t = Inr (?f t, ?g t)"
    using assms by (auto simp: shard_tasks_of_nat planned_process)
  then have "task_traces savez (shard_tasks_of dataset output_dir shard_size shard_start_idx ?T)
             = Inr (map ?f (shard_tasks_of dataset output_dir shard_size shard_start_idx ?T))"
    by (rule task_traces_map)
  also have "map ?f (shard_tasks_of dataset output_dir shard_size shard_start_idx ?T)
             = planned_traces savez dataset output_dir shard_size shard_start_idx"
    using assms by (simp add: shard_tasks_of_nat planned_traces_def comp_def)
  finally show ?thesis .
qed

lemma partition_prefix:
  assumes "0 < shard_size" "int k \<le> (int (length dataset) + shard_size - 1) div shard_size"
  shows "concat (map (\<lambda>i. py_range (int i * shard_size)
                            (min (int (length dataset)) (int i * shard_size + shard_size))) [0..<k])
         = py_range 0 (min (int (length dataset)) (int k * shard_size))"
  using assms(2)
proof (induction k)
  case 0
  show ?case by (simp add: py_range_def)
next
  case (Suc k)
  let ?n = "int (length dataset)"
  have lt: "int k * shard_size < ?n"
    using assms(1) Suc.prems by (intro task_start_in_range) simp_all
  have ih: "concat (map (\<lambda>i. py_range (int i * shard_size) (min ?n (int i * shard_size + shard_size))) [0..<k])
            = py_range 0 (int k * shard_size)"
    using Suc lt by (simp add: min_def)
  have "py_range 0 (int k * shard_size) @ py_range (int k * shard_size) (min ?n (int k * shard_size + shard_size))
        = py_range 0 (min ?n (int k * shard_size + shard_size))"
    using lt assms(1) by (intro py_range_append) simp_all
  then show ?case
    using ih by (simp add: algebra_simps)
qed

subsection \<open>Interleavings\<close>

lemma imap_filter:
  assumes "imap_unordered sched trs = Some ops" "i < length trs"
    and "\<forall>k<length trs. k \<noteq> i \<longrightarrow> (\<forall>x\<in>set (trs ! k). \<not> P x)"
  shows "filter P ops = filter P (trs ! i)"
  using assms
proof (induction sched arbitrary: trs ops)
  case Nil
  then have "list_all (\<lambda>t. t = []) trs" "ops = []"
    by (auto split: if_splits)
  with Nil.prems(2) show ?case by (simp add: list_all_length)
next
  case (Cons k sched)
  from Cons.prems(1) have k: "k < length trs"
    by (auto split: if_splits)
  from Cons.prems(1) k obtain x rest ops' where
    tk: "trs ! k = x # rest" and ops: "ops = x # ops'"
    and rec: "imap_unordered sched (trs[k := rest]) = Some ops'"
    by (auto split: list.splits)
  have others: "\<forall>m<length (trs[k := rest]). m \<noteq> i \<longrightarrow> (\<forall>y\<in>set (trs[k := rest] ! m). \<not> P y)"
  proof (intro allI impI ballI)
    fix m y assume m: "m < length (trs[k := rest])" "m \<noteq> i" and y: "y \<in> set (trs[k := rest] ! m)"
    have "y \<in> set (trs ! m)"
    proof (cases "m = k")
      case True
      with y k tk show ?thesis by simp
    next
      case False
      with y show ?thesis by simp
    qed
    with Cons.prems(3) m show "\<not> P y" by simp
  qed
  have ih: "filter P ops' = filter P (trs[k := rest] ! i)"
    using Cons.IH [OF rec _ others] Cons.prems(2) by simp
  show ?case
  proof (cases "k = i")
    case True
    with ih tk ops k show ?thesis by simp
  next
    case False
    then have "\<not> P x" using Cons.prems(3) k tk by auto
    with ih ops False show ?thesis by simp
  qed
qed

lemma imap_count:
  "imap_unordered sched trs = Some ops \<Longrightarrow>
     length (filter P ops) = sum_list (map (\<lambda>t. length (filter P t)) trs)"
proof (induction sched arbitrary: trs ops)
  case Nil
  then have e: "list_all (\<lambda>t. t = []) trs" "ops = []"
    by (auto split: if_splits)
  then have "map (\<lambda>t. length (filter P t)) trs = map (\<lambda>t. 0) trs"
    by (auto simp: list_all_iff)
  with e show ?case by simp
next
  case (Cons k sched)
  from Cons.prems have k: "k < length trs"
    by (auto split: if_splits)
  from Cons.prems k obtain x rest ops' where
    tk: "trs ! k = x # rest" and ops: "ops = x # ops'"
    and rec: "imap_unordered sched (trs[k := rest]) = Some ops'"
    by (auto split: list.splits)
  let ?f = "\<lambda>t. length (filter P t)"
  have trs: "trs = take k trs @ (x # rest) # drop (Suc k) trs"
    using k tk by (metis id_take_nth_drop)
  have upd: "trs[k := rest] = take k trs @ rest # drop (Suc k) trs"
    using k by (simp add: upd_conv_take_nth_drop)
  have "sum_list (map ?f trs) = sum_list (map ?f (take k trs)) + ?f (x # rest) + sum_list (map ?f (drop (Suc k) trs))"
    by (subst trs) simp
  moreover have "sum_list (map ?f (trs[k := rest])) = sum_list (map ?f (take k trs)) + ?f rest + sum_list (map ?f (drop (Suc k) trs))"
    by (subst upd) simp
  ultimately show ?case
    using Cons.IH [OF rec] ops by simp
qed

lemma imap_replicate:
  "k < length trs \<Longrightarrow> trs ! k = t \<Longrightarrow>
     imap_unordered (replicate (length t) k @ sched) trs
       = map_option ((@) t) (imap_unordered sched (trs[k := []]))"
proof (induction t arbitrary: trs)
  case Nil
  then have "trs[k := []] = trs" by (metis list_update_id)
  then show ?case by (simp add: option.map_ident)
next
  case (Cons x t)
  have "imap_unordered (replicate (length t) k @ sched) (trs[k := t])
        = map_option ((@) t) (imap_unordered sched (trs[k := t, k := []]))"
    using Cons.prems(1) by (intro Cons.IH) simp_all
  then show ?case
    using Cons.prems by (simp add: option.map_comp comp_def)
qed

lemma imap_in_order_from:
  "j \<le> length trs \<Longrightarrow> \<forall>i<j. trs ! i = [] \<Longrightarrow>
     imap_unordered (concat (map (\<lambda>i. replicate (length (trs ! i)) i) [j..<length trs])) trs
       = Some (concat (drop j trs))"
proof (induction "length trs - j" arbitrary: j trs)
  case 0
  then have "j = length trs" by simp
  with 0 show ?case by (simp add: list_all_length)
next
  case (Suc d)
  then have j: "j < length trs" by simp
  let ?trs = "trs[j := []]"
  have upt: "[j..<length trs] = j # [Suc j..<length trs]"
    using j by (simp add: upt_rec)
  have same: "map (\<lambda>i. replicate (length (trs ! i)) i) [Suc j..<length trs]
              = map (\<lambda>i. replicate (length (?trs ! i)) i) [Suc j..<length ?trs]"
    by simp
  have empties: "\<forall>i<Suc j. ?trs ! i = []"
    using Suc.prems(2) j by (simp add: nth_list_update less_Suc_eq)
  have ih: "imap_unordered (concat (map (\<lambda>i. replicate (length (?trs ! i)) i) [Suc j..<length ?trs])) ?trs
            = Some (concat (drop (Suc j) ?trs))"
    using Suc.hyps(2) j empties by (intro Suc.hyps(1)) simp_all
  have "imap_unordered (concat (map (\<lambda>i. replicate (length (trs ! i)) i) [j..<length trs])) trs
        = map_option ((@) (trs ! j))
            (imap_unordered (concat (map (\<lambda>i. replicate (length (trs ! i)) i) [Suc j..<length trs])) ?trs)"
    using imap_replicate [OF j refl] by (simp add: upt)
  also have "\<dots> = Some (trs ! j @ concat (drop (Suc j) trs))"
    using ih by (simp add: same)
  also have "trs ! j @ concat (drop (Suc j) trs) = concat (drop j trs)"
    using Cons_nth_drop_Suc [OF j] by (metis concat.simps(2))
  finally show ?case .
qed

lemma imap_in_order: "imap_unordered (in_order trs) trs = Some (concat trs)"
  using imap_in_order_from [of 0 trs] by (simp add: in_order_def)

subsection \<open>Runs of \<open>create_webdataset\<close>\<close>

lemma create_webdataset_pool:
  assumes "0 < shard_size" "1 \<le> num_proc"
  shows "create_webdataset savez dataset output_dir shard_size num_proc shard_start_idx sched =
         map_option (\<lambda>ops. Inr ([Makedirs output_dir,
                                  Print (''Total samples in dataset: '' @ str_nat (length dataset))] @ ops))
           (imap_unordered sched (planned_traces savez dataset output_dir shard_size shard_start_idx))"
  using assms planned_task_traces [OF assms(1), of savez dataset output_dir shard_start_idx]
  by (simp add: create_webdataset_def total_shards_of_def Let_def)

lemma planned_traces_length:
  "length (planned_traces savez dataset output_dir shard_size shard_start_idx)
     = nat ((int (length dataset) + shard_size - 1) div shard_size)"
  by (simp add: planned_traces_def)

lemma planned_traces_nth:
  "i < nat ((int (length dataset) + shard_size - 1) div shard_size) \<Longrightarrow>
     planned_traces savez dataset output_dir shard_size shard_start_idx ! i
       = save_shard savez output_dir (shard_start_idx + int i) (shard_slice dataset shard_size i)"
  by (simp add: planned_traces_def)

lemma pool_shard_file:
  assumes "imap_unordered sched (planned_traces savez dataset output_dir shard_size shard_start_idx) = Some ops"
    and "i < nat ((int (length dataset) + shard_size - 1) div shard_size)"
  shows "fold (file_step (shard_path_of output_dir (shard_start_idx + int i))) ops c
         = Some (written_records savez (shard_slice dataset shard_size i))"
proof -
  let ?trs = "planned_traces savez dataset output_dir shard_size shard_start_idx"
  let ?p = "shard_path_of output_dir (shard_start_idx + int i)"
  let ?P = "\<lambda>x. op_path x = Some ?p"
  have i: "i < length ?trs" using assms(2) by (simp add: planned_traces_length)
  have others: "\<forall>k<length ?trs. k \<noteq> i \<longrightarrow> (\<forall>x\<in>set (?trs ! k). \<not> ?P x)"
  proof (intro allI impI ballI)
    fix k x assume k: "k < length ?trs" "k \<noteq> i" and x: "x \<in> set (?trs ! k)"
    from k have "k < nat ((int (length dataset) + shard_size - 1) div shard_size)"
      by (simp add: planned_traces_length)
    with x have "x \<in> set (save_shard savez output_dir (shard_start_idx + int k) (shard_slice dataset shard_size k))"
      by (simp add: planned_traces_nth)
    then have "op_path x = Some (shard_path_of output_dir (shard_start_idx + int k)) \<or> op_path x = None"
      by (rule save_shard_paths)
    moreover have "shard_path_of output_dir (shard_start_idx + int k) \<noteq> ?p"
      using k(2) shard_path_of_inj [of output_dir "shard_start_idx + int k" "shard_start_idx + int i"]
      by auto
    ultimately show "\<not> ?P x" by auto
  qed
  have "fold (file_step ?p) ops c = fold (file_step ?p) (filter ?P ops) c"
    by (simp add: fold_file_step_filter)
  also have "filter ?P ops = filter ?P (?trs ! i)"
    using assms(1) i others by (rule imap_filter)
  also have "fold (file_step ?p) (filter ?P (?trs ! i)) c = fold (file_step ?p) (?trs ! i) c"
    by (simp add: fold_file_step_filter)
  also have "\<dots> = Some (written_records savez (shard_slice dataset shard_size i))"
    using assms(2) by (simp add: planned_traces_nth save_shard_file)
  finally show ?thesis .
qed

lemma pool_other_file:
  assumes "imap_unordered sched (planned_traces savez dataset output_dir shard_size shard_start_idx) = Some ops"
    and "\<forall>i<nat ((int (length dataset) + shard_size - 1) div shard_size).
           q \<noteq> shard_path_of output_dir (shard_start_idx + int i)"
  shows "fold (file_step q) ops c = c"
proof -
  let ?trs = "planned_traces savez dataset output_dir shard_size shard_start_idx"
  let ?P = "\<lambda>x. op_path x = Some q"
  have "\<forall>t\<in>set ?trs. filter ?P t = []"
  proof
    fix t assume "t \<in> set ?trs"
    then obtain i where i: "i < nat ((int (length dataset) + shard_size - 1) div shard_size)"
      and t: "t = save_shard savez output_dir (shard_start_idx + int i) (shard_slice dataset shard_size i)"
      by (auto simp: planned_traces_def)
    have "\<forall>x\<in>set t. \<not> ?P x"
    proof
      fix x assume "x \<in> set t"
      then have "op_path x = Some (shard_path_of output_dir (shard_start_idx + int i)) \<or> op_path x = None"
        unfolding t by (rule save_shard_paths)
      with assms(2) i show "\<not> ?P x" by auto
    qed
    then show "filter ?P t = []" by (simp add: filter_empty_conv)
  qed
  then have "map (\<lambda>t. length (filter ?P t)) ?trs = map (\<lambda>t. 0) ?trs"
    by simp
  then have "length (filter ?P ops) = 0"
    using imap_count [OF assms(1), of ?P] by simp
  then have "filter ?P ops = []" by simp
  then show ?thesis
    using fold_file_step_filter [of q ops c] by simp
qed

lemma slices_concat_prefix:
  "concat (map (shard_slice dataset shard_size) [0..<k]) = take (k * nat shard_size) dataset"
proof (induction k)
  case 0
  show ?case by simp
next
  case (Suc k)
  have "take (k * nat shard_size) dataset @ take (nat shard_size) (drop (k * nat shard_size) dataset)
        = take (k * nat shard_size + nat shard_size) dataset"
    by (simp add: take_add)
  with Suc show ?case by (simp add: shard_slice_def add.commute)
qed

lemma slices_concat:
  assumes "0 < shard_size"
  shows "concat (map (shard_slice dataset shard_size)
           [0..<nat ((int (length dataset) + shard_size - 1) div shard_size)]) = dataset"
proof -
  let ?T = "(int (length dataset) + shard_size - 1) div shard_size"
  have "int (length dataset) \<le> ?T * shard_size"
    using assms by (rule total_shards_mult)
  moreover have "0 \<le> ?T" using assms by (simp add: total_shards_nonneg)
  ultimately have "length dataset \<le> nat ?T * nat shard_size"
    using assms by (metis nat_int nat_mono nat_mult_distrib)
  then show ?thesis by (simp add: slices_concat_prefix)
qed

subsection \<open>Keys and counts\<close>

lemma length_str_nat_le: "0 < k \<Longrightarrow> n < 10 ^ k \<Longrightarrow> length (str_nat n) \<le> k"
proof (induction k arbitrary: n)
  case 0
  then show ?case by simp
next
  case (Suc k)
  show ?case
  proof (cases "n < 10")
    case True
    then show ?thesis by (subst str_nat.simps) simp
  next
    case False
    with Suc.prems have k: "0 < k" by (cases k) auto
    have "n div 10 < 10 ^ k" using Suc.prems by (simp add: less_mult_imp_div_less mult.commute)
    with k have "length (str_nat (n div 10)) \<le> k" by (rule Suc.IH)
    with False show ?thesis by (subst str_nat.simps) simp
  qed
qed

lemma sample_key_width: "j < 1000000 \<Longrightarrow> length (sample_key_of j) = 12"
proof -
  assume "j < 1000000"
  then have "j < 10 ^ 6" by simp
  then have "length (str_nat j) \<le> 6" by (intro length_str_nat_le) simp_all
  then show ?thesis by (simp add: sample_key_of_def format_0d_def zfill_def)
qed

lemma enumerate_from_map: "enumerate_from 0 xs = map (\<lambda>j. (j, xs ! j)) [0..<length xs]"
  by (rule nth_equalityI) (simp_all add: length_enumerate_from nth_enumerate_from)

lemma valid_positions_enumerate:
  "valid_positions (enumerate_from 0 xs) =
     map (\<lambda>j. (j, xs ! j)) (filter (\<lambda>j. all_finite (input_features (xs ! j))) [0..<length xs])"
  by (simp add: valid_positions_def enumerate_from_map filter_map comp_def)

lemma written_keys:
  "map key (written_records savez xs) =
     map sample_key_of (filter (\<lambda>j. all_finite (input_features (xs ! j))) [0..<length xs])"
  by (simp add: written_records_def valid_positions_enumerate record_of_def comp_def)

lemma written_records_positions:
  "written_records savez xs =
     map (\<lambda>j. record_of savez (j, xs ! j))
       (filter (\<lambda>j. all_finite (input_features (xs ! j))) [0..<length xs])"
  by (simp add: written_records_def valid_positions_enumerate comp_def)

lemma is_skip_line_message: "is_skip_line (skip_message k)"
  by (simp add: is_skip_line_def skip_message_def)

lemma loop_skips:
  "length (filter is_skip_op (save_shard_loop savez p js))
     = length (filter (\<lambda>js. \<not> all_finite (input_features (snd js))) js)"
proof (induction js)
  case Nil
  show ?case by simp
next
  case (Cons a js)
  obtain j s where a: "a = (j, s)" by (cases a)
  show ?case
    using invalid_iff [of "input_features s"]
    by (cases "all_finite (input_features s)")
       (simp_all add: a Cons.IH Let_def is_skip_line_message)
qed

lemma written_length:
  "length (written_records savez xs)
     + length (filter is_skip_op (save_shard savez output_dir shard_idx xs)) = length xs"
proof -
  have "length (filter is_skip_op (save_shard savez output_dir shard_idx xs))
        = length (filter (\<lambda>js. \<not> all_finite (input_features (snd js))) (enumerate_from 0 xs))"
    by (simp add: save_shard_def Let_def loop_skips)
  moreover have "length (written_records savez xs)
        = length (filter (\<lambda>js. all_finite (input_features (snd js))) (enumerate_from 0 xs))"
    by (simp add: written_records_def valid_positions_def)
  ultimately show ?thesis
    using sum_length_filter_compl [of "\<lambda>js. all_finite (input_features (snd js))" "enumerate_from 0 xs"]
    by (simp add: length_enumerate_from)
qed

lemma save_shard_files:
  "files (exec (save_shard savez output_dir shard_idx samples) w) (shard_path_of output_dir shard_idx)
     = Some (written_records savez samples)"
  by (simp add: files_exec save_shard_file)

lemma sample_key_of_inj_on: "inj_on sample_key_of A"
  by (rule inj_onI) (rule sample_key_of_inj)

lemma skip_lines_printed: "length (filter is_skip_line (printed ops)) = length (filter is_skip_op ops)"
proof (induction ops)
  case Nil
  show ?case by simp
next
  case (Cons x ops)
  then show ?case by (cases x) simp_all
qed

lemma run_result:
  assumes "0 < shard_size" "1 \<le> num_proc"
    and "create_webdataset savez dataset output_dir shard_size num_proc shard_start_idx sched = Some r"
  shows "\<exists>ops. imap_unordered sched (planned_traces savez dataset output_dir shard_size shard_start_idx) = Some ops
           \<and> r = Inr ([Makedirs output_dir,
                         Print (''Total samples in dataset: '' @ str_nat (length dataset))] @ ops)"
  using assms(3) unfolding create_webdataset_pool [OF assms(1,2)] by auto

lemma run_exists:
  assumes "0 < shard_size" "1 \<le> num_proc"
  shows "\<exists>sched ops. create_webdataset savez dataset output_dir shard_size num_proc shard_start_idx sched
           = Some (Inr ops)"
proof -
  let ?trs = "planned_traces savez dataset output_dir shard_size shard_start_idx"
  have "create_webdataset savez dataset output_dir shard_size num_proc shard_start_idx (in_order ?trs)
        = Some (Inr ([Makedirs output_dir,
                      Print (''Total samples in dataset: '' @ str_nat (length dataset))] @ concat ?trs))"
    unfolding create_webdataset_pool [OF assms] by (simp add: imap_in_order)
  then show ?thesis by blast
qed

lemma run_shard_file:
  assumes "0 < shard_size" "1 \<le> num_proc"
    and "create_webdataset savez dataset output_dir shard_size num_proc shard_start_idx sched = Some r"
    and "i < nat ((int (length dataset) + shard_size - 1) div shard_size)"
  shows "\<exists>ops. r = Inr ops \<and>
           files (exec ops w) (shard_path_of output_dir (shard_start_idx + int i))
             = Some (written_records savez (shard_slice dataset shard_size i))"
proof -
  from run_result [OF assms(1,2,3)] obtain ops where
    ops: "imap_unordered sched (planned_traces savez dataset output_dir shard_size shard_start_idx) = Some ops"
    and r: "r = Inr ([Makedirs output_dir,
                      Print (''Total samples in dataset: '' @ str_nat (length dataset))] @ ops)"
    by blast
  have "files (exec ([Makedirs output_dir,
                      Print (''Total samples in dataset: '' @ str_nat (length dataset))] @ ops) w)
          (shard_path_of output_dir (shard_start_idx + int i))
        = Some (written_records savez (shard_slice dataset shard_size i))"
    using pool_shard_file [OF ops assms(4)] by (simp add: files_exec)
  with r show ?thesis by blast
qed

lemma run_other_file:
  assumes "0 < shard_size" "1 \<le> num_proc"
    and "create_webdataset savez dataset output_dir shard_size num_proc shard_start_idx sched = Some r"
    and "\<forall>i<nat ((int (length dataset) + shard_size - 1) div shard_size).
           q \<noteq> shard_path_of output_dir (shard_start_idx + int i)"
  shows "\<exists>ops. r = Inr ops \<and> files (exec ops w) q = files w q"
proof -
  from run_result [OF assms(1,2,3)] obtain ops where
    ops: "imap_unordered sched (planned_traces savez dataset output_dir shard_size shard_start_idx) = Some ops"
    and r: "r = Inr ([Makedirs output_dir,
                      Print (''Total samples in dataset: '' @ str_nat (length dataset))] @ ops)"
    by blast
  have "files (exec ([Makedirs output_dir,
                      Print (''Total samples in dataset: '' @ str_nat (length dataset))] @ ops) w) q
        = files w q"
    using pool_other_file [OF ops assms(4)] by (simp add: files_exec)
  with r show ?thesis by blast
qed

lemma run_dom:
  assumes "0 < shard_size" "1 \<le> num_proc"
    and "create_webdataset savez dataset output_dir shard_size num_proc shard_start_idx sched = Some (Inr ops)"
  shows "dom (files (exec ops w)) =
           dom (files w) \<union> (\<lambda>i. shard_path_of output_dir (shard_start_idx + int i))
                              ` {..<nat ((int (length dataset) + shard_size - 1) div shard_size)}"
proof -
  let ?T = "nat ((int (length dataset) + shard_size - 1) div shard_size)"
  let ?path = "\<lambda>i. shard_path_of output_dir (shard_start_idx + int i)"
  have shard: "files (exec ops w) (?path i) \<noteq> None" if "i < ?T" for i
    using run_shard_file [OF assms that, of w] by auto
  have other: "files (exec ops w) q = files w q" if "q \<notin> ?path ` {..<?T}" for q
  proof -
    from that have "\<forall>i<?T. q \<noteq> ?path i" by auto
    from run_other_file [OF assms this, of w] show ?thesis by auto
  qed
  show ?thesis
  proof (rule set_eqI)
    fix q
    show "q \<in> dom (files (exec ops w)) \<longleftrightarrow> q \<in> dom (files w) \<union> ?path ` {..<?T}"
    proof (cases "q \<in> ?path ` {..<?T}")
      case True
      then obtain i where "i < ?T" "q = ?path i" by auto
      with shard [of i] True show ?thesis by (auto simp: dom_def)
    next
      case False
      with other [of q] show ?thesis by (auto simp: dom_def)
    qed
  qed
qed

lemma shard_paths_inj: "inj_on (\<lambda>i. shard_path_of output_dir (shard_start_idx + int i)) A"
proof (rule inj_onI)
  fix i j
  assume "shard_path_of output_dir (shard_start_idx + int i) = shard_path_of output_dir (shard_start_idx + int j)"
  then have "shard_start_idx + int i = shard_start_idx + int j" by (rule shard_path_of_inj)
  then show "i = j" by simp
qed

lemma run_skips:
  assumes "0 < shard_size" "1 \<le> num_proc"
    and "create_webdataset savez dataset output_dir shard_size num_proc shard_start_idx sched = Some (Inr ops)"
  shows "(\<Sum>i<nat ((int (length dataset) + shard_size - 1) div shard_size).
            length (written_records savez (shard_slice dataset shard_size i)))
         + length (filter is_skip_line (printed ops)) = length dataset"
proof -
  let ?T = "nat ((int (length dataset) + shard_size - 1) div shard_size)"
  let ?trs = "planned_traces savez dataset output_dir shard_size shard_start_idx"
  from run_result [OF assms] obtain ops' where
    ops': "imap_unordered sched ?trs = Some ops'"
    and ops: "ops = [Makedirs output_dir,
                     Print (''Total samples in dataset: '' @ str_nat (length dataset))] @ ops'"
    by auto
  have "length (filter is_skip_line (printed ops)) = length (filter is_skip_op ops')"
    by (simp add: skip_lines_printed ops is_skip_line_def)
  also have "\<dots> = sum_list (map (\<lambda>t. length (filter is_skip_op t)) ?trs)"
    using ops' by (rule imap_count)
  also have "\<dots> = (\<Sum>i<?T. length (filter is_skip_op
        (save_shard savez output_dir (shard_start_idx + int i) (shard_slice dataset shard_size i))))"
    by (simp add: planned_traces_def comp_def interv_sum_list_conv_sum_set_nat atLeast0LessThan)
  finally have skips: "length (filter is_skip_line (printed ops)) =
      (\<Sum>i<?T. length (filter is_skip_op
        (save_shard savez output_dir (shard_start_idx + int i) (shard_slice dataset shard_size i))))" .
  have "(\<Sum>i<?T. length (written_records savez (shard_slice dataset shard_size i)))
        + length (filter is_skip_line (printed ops))
        = (\<Sum>i<?T. length (shard_slice dataset shard_size i))"
    unfolding skips by (simp add: sum.distrib [symmetric] written_length)
  also have "\<dots> = length (concat (map (shard_slice dataset shard_size) [0..<?T]))"
    by (simp add: length_concat comp_def interv_sum_list_conv_sum_set_nat atLeast0LessThan)
  also have "\<dots> = length dataset"
    using assms(1) by (simp add: slices_concat)
  finally show ?thesis .
qed

subsection \<open>The example runs\<close>

lemma example_interleaved_run:
  "create_webdataset example_savez example_dataset ''out'' 2 2 0 [1, 0, 0, 1, 0, 1, 0]
     = Some (Inr example_interleaved_ops)"
  by code_simp

lemma example_in_order_run:
  "create_webdataset example_savez example_dataset ''out'' 2 1 0 [0, 0, 0, 0, 1, 1, 1]
     = Some (Inr example_in_order_ops)"
  by code_simp

lemma example_skipped_run:
  "create_webdataset example_savez [example_nan, example_inf] ''out'' 2 8 0 [0, 0, 0, 0]
     = Some (Inr example_skipped_ops)"
  by code_simp

lemma example_path0: "shard_path_of ''out'' 0 = ''out/shard-00000.tar''"
  by code_simp

lemma written_records_none:
  assumes "\<forall>s\<in>set xs. \<not> all_finite (input_features s)"
  shows "written_records savez xs = []"
proof -
  have "\<forall>j\<in>set [0..<length xs]. \<not> all_finite (input_features (xs ! j))"
    using assms by simp
  then have "filter (\<lambda>j. all_finite (input_features (xs ! j))) [0..<length xs] = []"
    by (simp add: filter_empty_conv)
  then show ?thesis by (simp add: written_records_positions)
qed

lemma key_written_iff:
  assumes "j < length xs"
  shows "(\<exists>r\<in>set (written_records savez xs). key r = sample_key_of j)
         \<longleftrightarrow> all_finite (input_features (xs ! j))"
proof -
  let ?js = "filter (\<lambda>j. all_finite (input_features (xs ! j))) [0..<length xs]"
  have "(\<exists>r\<in>set (written_records savez xs). key r = sample_key_of j)
        \<longleftrightarrow> sample_key_of j \<in> set (map key (written_records savez xs))"
    unfolding set_map image_iff by metis
  also have "\<dots> \<longleftrightarrow> sample_key_of j \<in> sample_key_of ` set ?js"
    by (simp add: written_keys)
  also have "\<dots> \<longleftrightarrow> j \<in> set ?js"
    using sample_key_of_inj by blast
  also have "\<dots> \<longleftrightarrow> all_finite (input_features (xs ! j))"
    using assms by simp
  finally show ?thesis .
qed

lemma written_keys_cong:
  assumes "map input_features ys = map input_features xs"
  shows "map key (written_records savez ys) = map key (written_records savez xs)"
proof -
  from assms have len: "length ys = length xs" by (rule map_eq_imp_length_eq)
  have "input_features (ys ! j) = input_features (xs ! j)" if "j < length xs" for j
    using that assms len by (metis nth_map)
  then have "filter (\<lambda>j. all_finite (input_features (ys ! j))) [0..<length xs]
             = filter (\<lambda>j. all_finite (input_features (xs ! j))) [0..<length xs]"
    by (intro filter_cong) simp_all
  then show ?thesis by (simp add: written_keys len)
qed

lemma example_valid_positions:
  "filter (\<lambda>j. all_finite (input_features (example_dataset ! j))) [0..<length example_dataset] = [0, 2]"
  by code_simp

lemma example_keys: "map sample_key_of [0, 2] = [''sample000000'', ''sample000002'']"
  by code_simp

subsection \<open>The container model loses nothing\<close>

lemma read_unary_unary: "read_unary k (unary n @ rest) = (k + n) # read_unary 0 rest"
proof (induction n arbitrary: k)
  case 0
  show ?case by (simp add: unary_def)
next
  case (Suc n)
  have "read_unary k (unary (Suc n) @ rest) = read_unary (Suc k) (unary n @ rest)"
    by (simp add: unary_def)
  with Suc [of "Suc k"] show ?case by simp
qed

lemma read_unary_concat: "read_unary 0 (concat (map unary ns)) = ns"
proof (induction ns)
  case Nil
  show ?case by simp
next
  case (Cons n ns)
  then show ?case using read_unary_unary [of 0 n "concat (map unary ns)"] by simp
qed

lemma signed_magnitude: "(if (if a < 0 then 1 else 0) = (1::nat) then - int (nat \<bar>a\<bar>) else int (nat \<bar>a\<bar>)) = a"
  by simp

lemma floats_of_float_tokens: "floats_of_tokens (float_tokens x @ rest) = x # floats_of_tokens rest"
proof (cases x)
  case (Finite r)
  have pos: "0 < snd (quotient_of r)" by (rule quotient_of_denom_pos')
  then have den: "int (nat (snd (quotient_of r))) = snd (quotient_of r)" by simp
  have "Fract (if (if fst (quotient_of r) < 0 then 1 else 0) = (1::nat)
               then - int (nat \<bar>fst (quotient_of r)\<bar>) else int (nat \<bar>fst (quotient_of r)\<bar>))
              (int (nat (snd (quotient_of r)))) = r"
    unfolding signed_magnitude den by (rule Fract_quotient_of)
  then show ?thesis by (simp add: Finite)
qed simp_all

lemma floats_of_tokens_concat: "floats_of_tokens (concat (map float_tokens xs)) = xs"
proof (induction xs)
  case Nil
  show ?case by simp
next
  case (Cons x xs)
  then show ?case using floats_of_float_tokens [of x "concat (map float_tokens xs)"] by simp
qed

lemma model_codec_lossless: "model_load (model_savez name a) = Some (name, a)"
proof -
  have "read_unary 0 (model_savez name a) = array_tokens name a"
    by (simp add: model_savez_def read_unary_concat)
  then show ?thesis
    by (cases a) (simp add: model_load_def array_tokens_def floats_of_tokens_concat comp_def)
qed

section \<open>The planner\<close>

text \<open>
  Claim C1. For a positive shard size the planner computes \<open>ceil(N / S)\<close> shards for a
  dataset of \<open>N\<close> rows. Task \<open>i\<close> carries the shard index \<open>shard_start_idx + i\<close> and the
  start offset \<open>i * S\<close>, and selects the contiguous indices from \<open>i * S\<close>,
  \<open>min(S, N - i * S)\<close> of them. The selections of the tasks, taken in order, are exactly
  \<open>0, ..., N - 1\<close>: no gap and no overlap. An empty dataset gives no task.
\<close>

theorem planner_partitions_dataset:
  assumes "0 < shard_size"
  shows "\<exists>total_shards.
           total_shards_of dataset shard_size = Inr total_shards
         \<and> total_shards = \<lceil>real (length dataset) / real_of_int shard_size\<rceil>
         \<and> length (shard_tasks_of dataset output_dir shard_size shard_start_idx total_shards)
             = nat total_shards
         \<and> (\<forall>i<nat total_shards.
               shard_tasks_of dataset output_dir shard_size shard_start_idx total_shards ! i
                 = (dataset, shard_start_idx + int i, int i * shard_size, output_dir, shard_size)
             \<and> shard_indices
                 (shard_tasks_of dataset output_dir shard_size shard_start_idx total_shards ! i)
                 = py_range (int i * shard_size)
                     (int i * shard_size
                        + min shard_size (int (length dataset) - int i * shard_size)))
         \<and> concat (map shard_indices
               (shard_tasks_of dataset output_dir shard_size shard_start_idx total_shards))
             = py_range 0 (int (length dataset))
         \<and> (dataset = [] \<longrightarrow>
               shard_tasks_of dataset output_dir shard_size shard_start_idx total_shards = [])"
proof -
  let ?n = "int (length dataset)"
  let ?T = "(?n + shard_size - 1) div shard_size"
  let ?tasks = "shard_tasks_of dataset output_dir shard_size shard_start_idx ?T"
  have T0: "0 \<le> ?T" using assms by (simp add: total_shards_nonneg)
  have total: "total_shards_of dataset shard_size = Inr ?T"
    using assms by (simp add: total_shards_of_def)
  have ceil: "?T = \<lceil>real (length dataset) / real_of_int shard_size\<rceil>"
    using total_shards_ceiling [OF assms, of ?n] by simp
  have len: "length ?tasks = nat ?T"
    by (simp add: shard_tasks_of_nat)
  have nth: "?tasks ! i = (dataset, shard_start_idx + int i, int i * shard_size, output_dir, shard_size)"
    if "i < nat ?T" for i
    using that by (simp add: shard_tasks_of_nat)
  have idx: "shard_indices (?tasks ! i)
             = py_range (int i * shard_size)
                 (int i * shard_size + min shard_size (?n - int i * shard_size))"
    if "i < nat ?T" for i
  proof -
    have "min ?n (int i * shard_size + shard_size)
          = int i * shard_size + min shard_size (?n - int i * shard_size)"
      by (simp add: min_def)
    then show ?thesis
      using that by (simp add: nth planned_shard_indices)
  qed
  have "map shard_indices ?tasks
        = map (\<lambda>i. py_range (int i * shard_size) (min ?n (int i * shard_size + shard_size)))
            [0..<nat ?T]"
    by (simp add: shard_tasks_of_nat comp_def planned_shard_indices)
  then have "concat (map shard_indices ?tasks) = py_range 0 (min ?n (int (nat ?T) * shard_size))"
    using partition_prefix [OF assms, of "nat ?T" dataset] T0 by simp
  moreover have "?n \<le> ?T * shard_size" using assms by (rule total_shards_mult)
  ultimately have cover: "concat (map shard_indices ?tasks) = py_range 0 ?n"
    using T0 by (simp add: min_def)
  have empty: "dataset = [] \<longrightarrow> ?tasks = []"
    using assms by (simp add: shard_tasks_of_nat div_pos_pos_trivial)
  show ?thesis
    using total ceil len nth idx cover empty by blast
qed

theorem planner_partitions_dataset_witness:
  "0 < (2::int)
   \<and> total_shards_of example_dataset 2 = Inr 2
   \<and> shard_tasks_of example_dataset ''out'' 2 5 2 ! 1 = (example_dataset, 6, 2, ''out'', 2)
   \<and> shard_indices (shard_tasks_of example_dataset ''out'' 2 5 2 ! 1) = py_range 2 (2 + 1)
   \<and> concat (map shard_indices (shard_tasks_of example_dataset ''out'' 2 5 2)) = py_range 0 3"
proof -
  have h: "0 < (2::int)" by simp
  have t: "total_shards_of example_dataset 2 = Inr 2"
    by (simp add: total_shards_of_def example_dataset_def)
  from planner_partitions_dataset [OF h, of example_dataset "''out''" 5]
  obtain T where
    T: "total_shards_of example_dataset 2 = Inr T"
    and nth: "\<forall>i<nat T. shard_tasks_of example_dataset ''out'' 2 5 T ! i
                = (example_dataset, 5 + int i, int i * 2, ''out'', 2)
              \<and> shard_indices (shard_tasks_of example_dataset ''out'' 2 5 T ! i)
                = py_range (int i * 2) (int i * 2 + min 2 (int (length example_dataset) - int i * 2))"
    and cover: "concat (map shard_indices (shard_tasks_of example_dataset ''out'' 2 5 T))
                = py_range 0 (int (length example_dataset))"
    by blast
  from T t have T2: "T = 2" by simp
  have n3: "int (length example_dataset) = 3" by (simp add: example_dataset_def)
  have i1: "(1::nat) < nat 2" by simp
  from nth [unfolded T2, rule_format, OF i1]
  have a: "shard_tasks_of example_dataset ''out'' 2 5 2 ! 1 = (example_dataset, 6, 2, ''out'', 2)"
    by simp
  from conjunct2 [OF nth [unfolded T2, rule_format, OF i1]]
  have b: "shard_indices (shard_tasks_of example_dataset ''out'' 2 5 2 ! 1) = py_range 2 (2 + 1)"
    by (simp only: n3) simp
  from cover [unfolded T2]
  have c: "concat (map shard_indices (shard_tasks_of example_dataset ''out'' 2 5 2)) = py_range 0 3"
    by (simp only: n3)
  from h t a b c show ?thesis by (intro conjI)
qed

text \<open>
  Claim C9. A planned task selects the indices
  \<open>range(start_idx, min(len(dataset), start_idx + shard_size))\<close>; every one of them is a
  valid index of the dataset, and \<open>process_single_shard\<close> returns without an
  \<open>IndexError\<close>.
\<close>

theorem worker_indices_in_range:
  assumes "0 < shard_size"
    and "total_shards_of dataset shard_size = Inr total_shards"
    and "task \<in> set (shard_tasks_of dataset output_dir shard_size shard_start_idx total_shards)"
  shows "(\<exists>shard_idx start_idx.
            task = (dataset, shard_idx, start_idx, output_dir, shard_size)
          \<and> shard_indices task
              = py_range start_idx (min (int (length dataset)) (start_idx + shard_size)))
         \<and> (\<forall>k\<in>set (shard_indices task). 0 \<le> k \<and> k < int (length dataset))
         \<and> (\<exists>ops shard_idx. process_single_shard savez task = Inr (ops, shard_idx))"
proof -
  let ?n = "int (length dataset)"
  from assms(1,2) have T: "total_shards = (?n + shard_size - 1) div shard_size"
    by (simp add: total_shards_of_def)
  from assms(3) obtain i where i: "i < nat total_shards"
    and task: "task = (dataset, shard_start_idx + int i, int i * shard_size, output_dir, shard_size)"
    by (auto simp: shard_tasks_of_nat)
  from i have iT: "int i < (?n + shard_size - 1) div shard_size" using T by simp
  have lt: "int i * shard_size < ?n" using assms(1) iT by (rule task_start_in_range)
  have ind: "shard_indices task
             = py_range (int i * shard_size) (min ?n (int i * shard_size + shard_size))"
    by (simp add: task planned_shard_indices)
  have range: "\<forall>k\<in>set (shard_indices task). 0 \<le> k \<and> k < ?n"
  proof
    fix k assume "k \<in> set (shard_indices task)"
    then have "int i * shard_size \<le> k" "k < min ?n (int i * shard_size + shard_size)"
      unfolding ind by (simp_all add: set_py_range)
    moreover have "0 \<le> int i * shard_size" using assms(1) by (simp add: mult_nonneg_nonneg)
    ultimately show "0 \<le> k \<and> k < ?n" by linarith
  qed
  have "process_single_shard savez task
        = Inr (save_shard savez output_dir (shard_start_idx + int i) (shard_slice dataset shard_size i),
               shard_start_idx + int i)"
    unfolding task using assms(1) iT by (rule planned_process)
  with task ind range show ?thesis by blast
qed

theorem worker_indices_in_range_witness:
  "0 < (2::int)
   \<and> total_shards_of example_dataset 2 = Inr 2
   \<and> (example_dataset, 6, 2, ''out'', 2) \<in> set (shard_tasks_of example_dataset ''out'' 2 5 2)
   \<and> list_all (\<lambda>k. 0 \<le> k \<and> k < int (length example_dataset))
         (shard_indices (example_dataset, 6, 2, ''out'', 2))
   \<and> (\<exists>ops shard_idx.
         process_single_shard example_savez (example_dataset, 6, 2, ''out'', 2) = Inr (ops, shard_idx))"
proof -
  have h: "0 < (2::int)" by simp
  have t: "total_shards_of example_dataset 2 = Inr 2"
    by (simp add: total_shards_of_def example_dataset_def)
  have m: "(example_dataset, 6, 2, ''out'', 2) \<in> set (shard_tasks_of example_dataset ''out'' 2 5 2)"
    by (simp add: shard_tasks_of_def py_range_def upt_rec)
  note c = worker_indices_in_range [OF h t m, of example_savez]
  from conjunct1 [OF conjunct2 [OF c]]
  have r: "list_all (\<lambda>k. 0 \<le> k \<and> k < int (length example_dataset))
             (shard_indices (example_dataset, 6, 2, ''out'', 2))"
    by (simp only: list_all_iff)
  note e = conjunct2 [OF conjunct2 [OF c]]
  from h t m r e show ?thesis by (intro conjI)
qed

section \<open>Validation and keys in \<open>save_shard\<close>\<close>

text \<open>
  Claim C2. After \<open>save_shard\<close> the archive of the shard holds a record with the key of
  position \<open>j\<close> exactly when every element of the \<open>input_features\<close> of the sample at
  position \<open>j\<close> is finite, and then it is the record built from that sample. The labels
  play no part: any slice with the same \<open>input_features\<close>, whatever its labels, gives the
  same keys.
\<close>

theorem record_written_iff_finite:
  assumes "j < length shard_samples"
  shows "\<exists>recs.
           files (exec (save_shard savez output_dir shard_idx shard_samples) w)
             (shard_path_of output_dir shard_idx) = Some recs
         \<and> ((\<exists>r\<in>set recs. key r = sample_key_of j)
              \<longleftrightarrow> all_finite (input_features (shard_samples ! j)))
         \<and> (all_finite (input_features (shard_samples ! j))
              \<longrightarrow> record_of savez (j, shard_samples ! j) \<in> set recs)
         \<and> (\<forall>samples'. map input_features samples' = map input_features shard_samples \<longrightarrow>
               map_option (map key)
                 (files (exec (save_shard savez output_dir shard_idx samples') w)
                    (shard_path_of output_dir shard_idx))
               = Some (map key recs))"
proof -
  let ?recs = "written_records savez shard_samples"
  have a: "files (exec (save_shard savez output_dir shard_idx shard_samples) w)
             (shard_path_of output_dir shard_idx) = Some ?recs"
    by (rule save_shard_files)
  have b: "(\<exists>r\<in>set ?recs. key r = sample_key_of j)
           \<longleftrightarrow> all_finite (input_features (shard_samples ! j))"
    using assms by (rule key_written_iff)
  have c: "all_finite (input_features (shard_samples ! j))
           \<longrightarrow> record_of savez (j, shard_samples ! j) \<in> set ?recs"
    using assms by (simp add: written_records_positions)
  have d: "\<forall>samples'. map input_features samples' = map input_features shard_samples \<longrightarrow>
             map_option (map key)
               (files (exec (save_shard savez output_dir shard_idx samples') w)
                  (shard_path_of output_dir shard_idx))
             = Some (map key ?recs)"
  proof (intro allI impI)
    fix samples' :: "sample list"
    assume "map input_features samples' = map input_features shard_samples"
    then have "map key (written_records savez samples') = map key ?recs"
      by (rule written_keys_cong)
    then show "map_option (map key)
               (files (exec (save_shard savez output_dir shard_idx samples') w)
                  (shard_path_of output_dir shard_idx))
             = Some (map key ?recs)"
      by (simp add: save_shard_files)
  qed
  from a b c d show ?thesis by blast
qed

theorem record_written_iff_finite_witness:
  "(1::nat) < length example_dataset
   \<and> \<not> all_finite (input_features (example_dataset ! 1))
   \<and> all_finite (input_features (example_dataset ! 2))
   \<and> \<not> all_finite (labels (example_dataset ! 2))
   \<and> (\<exists>recs. files (exec (save_shard example_savez ''out'' 4 example_dataset) initial_world)
                 (shard_path_of ''out'' 4) = Some recs
         \<and> \<not> (\<exists>r\<in>set recs. key r = sample_key_of 1)
         \<and> (\<exists>r\<in>set recs. key r = sample_key_of 2))"
proof -
  have h1: "(1::nat) < length example_dataset" and h2: "(2::nat) < length example_dataset"
    by (simp_all add: example_dataset_def)
  have v1: "\<not> all_finite (input_features (example_dataset ! 1))"
    by (simp add: example_dataset_def example_nan_def all_finite_def is_finite_def)
  have v2: "all_finite (input_features (example_dataset ! 2))"
    by (simp add: example_dataset_def example_ok_def all_finite_def is_finite_def)
  have v3: "\<not> all_finite (labels (example_dataset ! 2))"
    by (simp add: example_dataset_def example_ok_def all_finite_def is_finite_def)
  from record_written_iff_finite [OF h1, of example_savez "''out''" 4 initial_world]
       record_written_iff_finite [OF h2, of example_savez "''out''" 4 initial_world]
       h1 v1 v2 v3
  show ?thesis by auto
qed

text \<open>
  Claim C4. The keys of the records of a shard, in the order written, are
  \<open>sample{j:06d}\<close> for the positions \<open>j\<close> of the all-finite samples of the input slice, in
  increasing order: a skipped position leaves a gap and later keys are not renumbered.
  The keys are pairwise distinct, and for slices of at most a million samples each key is
  \<open>sample\<close> followed by exactly six digits.
\<close>

theorem record_keys_follow_positions:
  "\<exists>recs js.
     files (exec (save_shard savez output_dir shard_idx shard_samples) w)
       (shard_path_of output_dir shard_idx) = Some recs
     \<and> js = filter (\<lambda>j. all_finite (input_features (shard_samples ! j))) [0..<length shard_samples]
     \<and> map key recs = map sample_key_of js
     \<and> sorted_wrt (<) js
     \<and> distinct (map key recs)
     \<and> (length shard_samples \<le> 1000000 \<longrightarrow> (\<forall>r\<in>set recs. length (key r) = 12))"
proof -
  let ?js = "filter (\<lambda>j. all_finite (input_features (shard_samples ! j))) [0..<length shard_samples]"
  let ?recs = "written_records savez shard_samples"
  have keys: "map key ?recs = map sample_key_of ?js" by (rule written_keys)
  have sorted: "sorted_wrt (<) ?js" by (rule sorted_wrt_filter) simp
  have "distinct ?js" by simp
  then have dist: "distinct (map key ?recs)"
    unfolding keys by (simp add: distinct_map sample_key_of_inj_on)
  have width: "length shard_samples \<le> 1000000 \<longrightarrow> (\<forall>r\<in>set ?recs. length (key r) = 12)"
  proof (intro impI ballI)
    fix r assume n: "length shard_samples \<le> 1000000" and "r \<in> set ?recs"
    then have "key r \<in> set (map key ?recs)" by simp
    then obtain j where "j \<in> set ?js" "key r = sample_key_of j"
      unfolding keys by auto
    with n show "length (key r) = 12" by (simp add: sample_key_width)
  qed
  show ?thesis
    using save_shard_files [of savez output_dir shard_idx shard_samples w] keys sorted dist width
    by blast
qed

theorem record_keys_follow_positions_witness:
  "length example_dataset \<le> 1000000
   \<and> (\<exists>recs. files (exec (save_shard example_savez ''out'' 4 example_dataset) initial_world)
                 (shard_path_of ''out'' 4) = Some recs
         \<and> map key recs = [''sample000000'', ''sample000002'']
         \<and> distinct (map key recs)
         \<and> (\<forall>r\<in>set recs. length (key r) = 12))"
proof -
  have n: "length example_dataset \<le> 1000000" by (simp add: example_dataset_def)
  from record_keys_follow_positions [of example_savez "''out''" 4 example_dataset initial_world]
  obtain recs js where
    f: "files (exec (save_shard example_savez ''out'' 4 example_dataset) initial_world)
          (shard_path_of ''out'' 4) = Some recs"
    and js: "js = filter (\<lambda>j. all_finite (input_features (example_dataset ! j)))
                    [0..<length example_dataset]"
    and keys: "map key recs = map sample_key_of js"
    and dist: "distinct (map key recs)"
    and width: "length example_dataset \<le> 1000000 \<longrightarrow> (\<forall>r\<in>set recs. length (key r) = 12)"
    by blast
  from js have "js = [0, 2]" by (simp only: example_valid_positions)
  with keys have "map key recs = [''sample000000'', ''sample000002'']"
    by (simp only: example_keys)
  moreover from n width have "\<forall>r\<in>set recs. length (key r) = 12" by simp
  ultimately show ?thesis using n f dist by auto
qed

text \<open>
  Claim C7. With any decoder that inverts the encoder, so that loading a container
  gives back the name and the array it was saved from, the records of a shard decoded
  member by member are exactly the keys and the arrays of the all-finite samples of the
  slice, in order: the member \<open>input.npz\<close> decodes to the \<open>input_features\<close> of the
  sample under the name \<open>input_features\<close>, and the member \<open>labels.npz\<close> to its
  \<open>labels\<close> under the name \<open>labels\<close>.
\<close>

theorem written_members_decode_to_source_arrays:
  assumes "\<forall>name a. load (savez name a) = Some (name, a)"
  shows "\<exists>recs.
           files (exec (save_shard savez output_dir shard_idx shard_samples) w)
             (shard_path_of output_dir shard_idx) = Some recs
         \<and> map (\<lambda>r. (key r, load (input_npz r), load (labels_npz r))) recs
             = map (\<lambda>j. (sample_key_of j,
                          Some (''input_features'', input_features (shard_samples ! j)),
                          Some (''labels'', labels (shard_samples ! j))))
                 (filter (\<lambda>j. all_finite (input_features (shard_samples ! j)))
                    [0..<length shard_samples])"
proof -
  have "map (\<lambda>r. (key r, load (input_npz r), load (labels_npz r)))
          (written_records savez shard_samples)
        = map (\<lambda>j. (sample_key_of j,
                     Some (''input_features'', input_features (shard_samples ! j)),
                     Some (''labels'', labels (shard_samples ! j))))
            (filter (\<lambda>j. all_finite (input_features (shard_samples ! j)))
               [0..<length shard_samples])"
    using assms by (simp add: written_records_positions record_of_def comp_def)
  with save_shard_files [of savez output_dir shard_idx shard_samples w]
  show ?thesis by blast
qed

theorem written_members_decode_to_source_arrays_witness:
  "model_load (model_savez ''labels'' (labels example_ok)) = Some (''labels'', labels example_ok)
   \<and> (\<exists>recs.
         files (exec (save_shard model_savez ''out'' 4 example_dataset) initial_world)
           (shard_path_of ''out'' 4) = Some recs
       \<and> map (\<lambda>r. (key r, model_load (input_npz r), model_load (labels_npz r))) recs
           = [(''sample000000'',
               Some (''input_features'', input_features (example_dataset ! 0)),
               Some (''labels'', labels (example_dataset ! 0))),
              (''sample000002'',
               Some (''input_features'', input_features (example_dataset ! 2)),
               Some (''labels'', labels (example_dataset ! 2)))])"
proof -
  have law: "\<forall>name a. model_load (model_savez name a) = Some (name, a)"
    by (simp add: model_codec_lossless)
  from written_members_decode_to_source_arrays
         [OF law, of "''out''" 4 example_dataset initial_world]
  obtain recs where
    f: "files (exec (save_shard model_savez ''out'' 4 example_dataset) initial_world)
          (shard_path_of ''out'' 4) = Some recs"
    and m: "map (\<lambda>r. (key r, model_load (input_npz r), model_load (labels_npz r))) recs
            = map (\<lambda>j. (sample_key_of j,
                         Some (''input_features'', input_features (example_dataset ! j)),
                         Some (''labels'', labels (example_dataset ! j))))
                (filter (\<lambda>j. all_finite (input_features (example_dataset ! j)))
                   [0..<length example_dataset])"
    by blast
  have k0: "sample_key_of 0 = ''sample000000''" and k2: "sample_key_of 2 = ''sample000002''"
    using example_keys by simp_all
  from m have "map (\<lambda>r. (key r, model_load (input_npz r), model_load (labels_npz r))) recs
           = [(''sample000000'',
               Some (''input_features'', input_features (example_dataset ! 0)),
               Some (''labels'', labels (example_dataset ! 0))),
              (''sample000002'',
               Some (''input_features'', input_features (example_dataset ! 2)),
               Some (''labels'', labels (example_dataset ! 2)))]"
    unfolding example_valid_positions by (simp add: k0 k2)
  with f law show ?thesis by auto
qed

section \<open>Files produced by a run\<close>

text \<open>
  Claim C5. The path of a shard is \<open>output_dir\<close> joined with
  \<open>shard-{shard_idx:05d}.tar\<close>; a task touches no other file, whatever its samples, and
  different shard indices give different paths. A run with a positive shard size and at
  least one worker completes under some schedule, and under every schedule the files it
  adds to the output directory are exactly the paths of the indices
  \<open>shard_start_idx + i\<close> for \<open>i\<close> below the number of shards.
\<close>

theorem shard_file_names:
  assumes "0 < shard_size" "1 \<le> num_proc"
  shows "\<exists>total_shards.
           total_shards_of dataset shard_size = Inr total_shards
         \<and> (\<exists>sched ops.
               create_webdataset savez dataset output_dir shard_size num_proc shard_start_idx sched
                 = Some (Inr ops))
         \<and> (\<forall>sched r.
               create_webdataset savez dataset output_dir shard_size num_proc shard_start_idx sched
                 = Some r \<longrightarrow>
               (\<exists>ops. r = Inr ops
                  \<and> dom (files (exec ops w))
                      = dom (files w)
                        \<union> (\<lambda>i. shard_path_of output_dir (shard_start_idx + int i))
                            ` {..<nat total_shards}))
         \<and> (\<forall>i j. shard_path_of output_dir i = shard_path_of output_dir j \<longrightarrow> i = j)
         \<and> (\<forall>shard_idx. shard_path_of output_dir shard_idx
               = os_path_join output_dir (''shard-'' @ format_0d 5 shard_idx @ ''.tar''))
         \<and> (\<forall>shard_idx. 0 \<le> shard_idx \<and> shard_idx < 100000 \<longrightarrow>
               length (format_0d 5 shard_idx) = 5)
         \<and> (\<forall>shard_idx samples x.
               x \<in> set (save_shard savez output_dir shard_idx samples) \<longrightarrow>
               op_path x = Some (shard_path_of output_dir shard_idx) \<or> op_path x = None)"
proof -
  let ?T = "(int (length dataset) + shard_size - 1) div shard_size"
  have total: "total_shards_of dataset shard_size = Inr ?T"
    using assms(1) by (simp add: total_shards_of_def)
  have ex: "\<exists>sched ops.
              create_webdataset savez dataset output_dir shard_size num_proc shard_start_idx sched
                = Some (Inr ops)"
    using assms by (rule run_exists)
  have names: "\<forall>sched r.
      create_webdataset savez dataset output_dir shard_size num_proc shard_start_idx sched = Some r \<longrightarrow>
      (\<exists>ops. r = Inr ops
         \<and> dom (files (exec ops w))
             = dom (files w)
               \<union> (\<lambda>i. shard_path_of output_dir (shard_start_idx + int i)) ` {..<nat ?T})"
  proof (intro allI impI)
    fix sched r
    assume run: "create_webdataset savez dataset output_dir shard_size num_proc shard_start_idx sched = Some r"
    from run_result [OF assms run] obtain ops where r: "r = Inr ops" by blast
    from run_dom [OF assms run [unfolded r], of w] r
    show "\<exists>ops. r = Inr ops
         \<and> dom (files (exec ops w))
             = dom (files w)
               \<union> (\<lambda>i. shard_path_of output_dir (shard_start_idx + int i)) ` {..<nat ?T}"
      by blast
  qed
  have inj: "\<forall>i j. shard_path_of output_dir i = shard_path_of output_dir j \<longrightarrow> i = j"
    by (intro allI impI) (rule shard_path_of_inj)
  have pat: "\<forall>shard_idx. shard_path_of output_dir shard_idx
               = os_path_join output_dir (''shard-'' @ format_0d 5 shard_idx @ ''.tar'')"
    by (simp add: shard_path_of_def)
  have own: "\<forall>shard_idx samples x.
               x \<in> set (save_shard savez output_dir shard_idx samples) \<longrightarrow>
               op_path x = Some (shard_path_of output_dir shard_idx) \<or> op_path x = None"
    by (intro allI impI) (rule save_shard_paths)
  have five: "\<forall>shard_idx. 0 \<le> shard_idx \<and> shard_idx < 100000 \<longrightarrow>
                length (format_0d 5 shard_idx) = 5"
  proof (intro allI impI)
    fix k :: int
    assume k: "0 \<le> k \<and> k < 100000"
    then have "nat k < 100000" by linarith
    then have "nat k < 10 ^ 5" by simp
    then have "length (str_nat (nat k)) \<le> 5" by (intro length_str_nat_le) simp_all
    with k show "length (format_0d 5 k) = 5" by (simp add: format_0d_def zfill_def)
  qed
  from total ex names inj pat five own show ?thesis by blast
qed

theorem shard_file_names_witness:
  "0 < (2::int) \<and> 1 \<le> (2::int)
   \<and> total_shards_of example_dataset 2 = Inr 2
   \<and> create_webdataset example_savez example_dataset ''out'' 2 2 0 [1, 0, 0, 1, 0, 1, 0]
       = Some (Inr example_interleaved_ops)
   \<and> dom (files (exec example_interleaved_ops initial_world))
       = dom (files initial_world) \<union> (\<lambda>i. shard_path_of ''out'' (0 + int i)) ` {..<nat 2}"
proof -
  have h1: "0 < (2::int)" and h2: "1 \<le> (2::int)" by simp_all
  have t: "total_shards_of example_dataset 2 = Inr 2"
    by (simp add: total_shards_of_def example_dataset_def)
  from shard_file_names [OF h1 h2, of example_dataset example_savez "''out''" 0 initial_world]
  obtain T where
    T: "total_shards_of example_dataset 2 = Inr T"
    and names: "\<forall>sched r.
      create_webdataset example_savez example_dataset ''out'' 2 2 0 sched = Some r \<longrightarrow>
      (\<exists>ops. r = Inr ops
         \<and> dom (files (exec ops initial_world))
             = dom (files initial_world) \<union> (\<lambda>i. shard_path_of ''out'' (0 + int i)) ` {..<nat T})"
    by blast
  from T t have T2: "T = 2" by simp
  from names [unfolded T2, rule_format, OF example_interleaved_run]
  have "dom (files (exec example_interleaved_ops initial_world))
       = dom (files initial_world) \<union> (\<lambda>i. shard_path_of ''out'' (0 + int i)) ` {..<nat 2}"
    by blast
  with h1 h2 t example_interleaved_run show ?thesis by (intro conjI)
qed

text \<open>
  Claim C3. A run into an empty output directory leaves \<open>ceil(N / S)\<close> shard files, and
  the records in all shards together with the skip diagnostics printed count every row
  of the dataset exactly once.
\<close>

theorem shard_and_record_counts:
  assumes "0 < shard_size" "1 \<le> num_proc"
  shows "(\<exists>sched ops.
            create_webdataset savez dataset output_dir shard_size num_proc shard_start_idx sched
              = Some (Inr ops))
         \<and> (\<forall>sched r.
               create_webdataset savez dataset output_dir shard_size num_proc shard_start_idx sched
                 = Some r \<longrightarrow>
               (\<exists>ops. r = Inr ops
                  \<and> card (dom (files (exec ops initial_world)))
                      = nat \<lceil>real (length dataset) / real_of_int shard_size\<rceil>
                  \<and> (\<Sum>p\<in>dom (files (exec ops initial_world)).
                         length (the (files (exec ops initial_world) p)))
                      + skipped_count (exec ops initial_world)
                      = length dataset))"
proof -
  let ?T = "nat ((int (length dataset) + shard_size - 1) div shard_size)"
  let ?path = "\<lambda>i. shard_path_of output_dir (shard_start_idx + int i)"
  have ex: "\<exists>sched ops.
              create_webdataset savez dataset output_dir shard_size num_proc shard_start_idx sched
                = Some (Inr ops)"
    using assms by (rule run_exists)
  have counts: "\<exists>ops. r = Inr ops
        \<and> card (dom (files (exec ops initial_world)))
            = nat \<lceil>real (length dataset) / real_of_int shard_size\<rceil>
        \<and> (\<Sum>p\<in>dom (files (exec ops initial_world)).
               length (the (files (exec ops initial_world) p)))
            + skipped_count (exec ops initial_world)
            = length dataset"
    if run: "create_webdataset savez dataset output_dir shard_size num_proc shard_start_idx sched = Some r"
    for sched r
  proof -
    from run_result [OF assms run] obtain ops where r: "r = Inr ops" by blast
    note run' = run [unfolded r]
    let ?w = "exec ops initial_world"
    have dom: "dom (files ?w) = ?path ` {..<?T}"
      using run_dom [OF assms run', of initial_world] by (simp add: initial_world_def)
    have "card (?path ` {..<?T}) = ?T"
      by (simp add: card_image shard_paths_inj)
    moreover have "int ?T = \<lceil>real (length dataset) / real_of_int shard_size\<rceil>"
      using total_shards_ceiling [OF assms(1), of "int (length dataset)"]
            total_shards_nonneg [OF assms(1), of "int (length dataset)"]
      by simp
    ultimately have card: "card (dom (files ?w)) = nat \<lceil>real (length dataset) / real_of_int shard_size\<rceil>"
      unfolding dom by (metis nat_int)
    have content: "files ?w (?path i) = Some (written_records savez (shard_slice dataset shard_size i))"
      if "i < ?T" for i
      using run_shard_file [OF assms run' that, of initial_world] by simp
    have "(\<Sum>p\<in>dom (files ?w). length (the (files ?w p)))
          = (\<Sum>i<?T. length (the (files ?w (?path i))))"
      unfolding dom by (simp add: sum.reindex shard_paths_inj)
    also have "\<dots> = (\<Sum>i<?T. length (written_records savez (shard_slice dataset shard_size i)))"
      by (rule sum.cong) (simp_all add: content)
    finally have recs: "(\<Sum>p\<in>dom (files ?w). length (the (files ?w p)))
          = (\<Sum>i<?T. length (written_records savez (shard_slice dataset shard_size i)))" .
    have skips: "skipped_count ?w = length (filter is_skip_line (printed ops))"
      by (simp add: skipped_count_def stdout_exec initial_world_def)
    have "(\<Sum>p\<in>dom (files ?w). length (the (files ?w p))) + skipped_count ?w = length dataset"
      unfolding recs skips using assms run' by (rule run_skips)
    with r card show ?thesis by blast
  qed
  from ex counts show ?thesis by blast
qed

theorem shard_and_record_counts_witness:
  "0 < (2::int) \<and> 1 \<le> (2::int)
   \<and> create_webdataset example_savez example_dataset ''out'' 2 2 0 [1, 0, 0, 1, 0, 1, 0]
       = Some (Inr example_interleaved_ops)
   \<and> card (dom (files (exec example_interleaved_ops initial_world)))
       = nat \<lceil>real (length example_dataset) / real_of_int 2\<rceil>
   \<and> (\<Sum>p\<in>dom (files (exec example_interleaved_ops initial_world)).
          length (the (files (exec example_interleaved_ops initial_world) p)))
       + skipped_count (exec example_interleaved_ops initial_world)
       = length example_dataset"
proof -
  have h1: "0 < (2::int)" and h2: "1 \<le> (2::int)" by simp_all
  from shard_and_record_counts [OF h1 h2, of example_savez example_dataset "''out''" 0,
         THEN conjunct2, rule_format, OF example_interleaved_run]
  have "card (dom (files (exec example_interleaved_ops initial_world)))
          = nat \<lceil>real (length example_dataset) / real_of_int 2\<rceil>
        \<and> (\<Sum>p\<in>dom (files (exec example_interleaved_ops initial_world)).
              length (the (files (exec example_interleaved_ops initial_world) p)))
          + skipped_count (exec example_interleaved_ops initial_world)
          = length example_dataset"
    by blast
  with h1 h2 example_interleaved_run show ?thesis by (intro conjI) blast+
qed

text \<open>
  Claim C6. Two runs over the same dataset with the same shard size and start index, under
  any two schedules of the pool, with any numbers of workers and from any two states of
  the output directory, leave the same records in every shard: the records of the
  all-finite samples of the slice of the task, which depend on the dataset and the
  slice alone.
\<close>

theorem shard_contents_independent_of_schedule:
  assumes "0 < shard_size" "1 \<le> num_proc1" "1 \<le> num_proc2"
    and "create_webdataset savez dataset output_dir shard_size num_proc1 shard_start_idx sched1 = Some r1"
    and "create_webdataset savez dataset output_dir shard_size num_proc2 shard_start_idx sched2 = Some r2"
    and "i < nat ((int (length dataset) + shard_size - 1) div shard_size)"
  shows "\<exists>ops1 ops2. r1 = Inr ops1 \<and> r2 = Inr ops2
         \<and> files (exec ops1 w1) (shard_path_of output_dir (shard_start_idx + int i))
             = files (exec ops2 w2) (shard_path_of output_dir (shard_start_idx + int i))
         \<and> files (exec ops1 w1) (shard_path_of output_dir (shard_start_idx + int i))
             = Some (written_records savez (shard_slice dataset shard_size i))"
  using run_shard_file [OF assms(1,2,4,6), of w1] run_shard_file [OF assms(1,3,5,6), of w2]
  by auto

theorem shard_contents_independent_of_schedule_witness:
  "0 < (2::int) \<and> 1 \<le> (2::int) \<and> 1 \<le> (1::int)
   \<and> create_webdataset example_savez example_dataset ''out'' 2 2 0 [1, 0, 0, 1, 0, 1, 0]
       = Some (Inr example_interleaved_ops)
   \<and> create_webdataset example_savez example_dataset ''out'' 2 1 0 [0, 0, 0, 0, 1, 1, 1]
       = Some (Inr example_in_order_ops)
   \<and> files (exec example_interleaved_ops initial_world) (shard_path_of ''out'' (0 + int 1))
       = files (exec example_in_order_ops example_old_world) (shard_path_of ''out'' (0 + int 1))
   \<and> files (exec example_interleaved_ops initial_world) (shard_path_of ''out'' (0 + int 1))
       = Some (written_records example_savez (shard_slice example_dataset 2 1))"
proof -
  have h1: "0 < (2::int)" and h2: "1 \<le> (2::int)" and h3: "1 \<le> (1::int)" by simp_all
  have h6: "1 < nat ((int (length example_dataset) + 2 - 1) div 2)"
    by (simp add: example_dataset_def)
  from shard_contents_independent_of_schedule
         [OF h1 h2 h3 example_interleaved_run example_in_order_run h6,
          of initial_world example_old_world]
       h1 h2 h3 example_interleaved_run example_in_order_run
  show ?thesis by auto
qed

text \<open>
  Claim C8. \<open>save_shard\<close> opens the archive before it looks at any sample. When every
  sample of the slice of a planned task is skipped, the run still leaves the file of that
  shard, and it holds no record.
\<close>

theorem shard_file_created_when_all_skipped:
  assumes "0 < shard_size" "1 \<le> num_proc"
    and "create_webdataset savez dataset output_dir shard_size num_proc shard_start_idx sched = Some r"
    and "i < nat ((int (length dataset) + shard_size - 1) div shard_size)"
    and "\<forall>s\<in>set (shard_slice dataset shard_size i). \<not> all_finite (input_features s)"
  shows "\<exists>ops. r = Inr ops
         \<and> files (exec ops w) (shard_path_of output_dir (shard_start_idx + int i)) = Some []
         \<and> (\<exists>rest. save_shard savez output_dir (shard_start_idx + int i)
                       (shard_slice dataset shard_size i)
                     = Tar_open (shard_path_of output_dir (shard_start_idx + int i)) # rest)
         \<and> files (exec (save_shard savez output_dir (shard_start_idx + int i)
                           (shard_slice dataset shard_size i)) w)
             (shard_path_of output_dir (shard_start_idx + int i)) = Some []"
proof -
  have none: "written_records savez (shard_slice dataset shard_size i) = []"
    using assms(5) by (rule written_records_none)
  have "\<exists>rest. save_shard savez output_dir (shard_start_idx + int i) (shard_slice dataset shard_size i)
                = Tar_open (shard_path_of output_dir (shard_start_idx + int i)) # rest"
    by (simp add: save_shard_def Let_def)
  moreover have "files (exec (save_shard savez output_dir (shard_start_idx + int i)
                           (shard_slice dataset shard_size i)) w)
                   (shard_path_of output_dir (shard_start_idx + int i)) = Some []"
    by (simp add: save_shard_files none)
  ultimately show ?thesis
    using run_shard_file [OF assms(1,2,3,4), of w] none by auto
qed

theorem shard_file_created_when_all_skipped_witness:
  "0 < (2::int) \<and> 1 \<le> (8::int)
   \<and> create_webdataset example_savez [example_nan, example_inf] ''out'' 2 8 0 [0, 0, 0, 0]
       = Some (Inr example_skipped_ops)
   \<and> list_all (\<lambda>s. \<not> all_finite (input_features s)) (shard_slice [example_nan, example_inf] 2 0)
   \<and> files (exec example_skipped_ops initial_world) (shard_path_of ''out'' (0 + int 0)) = Some []"
proof -
  have h1: "0 < (2::int)" and h2: "1 \<le> (8::int)" by simp_all
  have h4: "0 < nat ((int (length [example_nan, example_inf]) + 2 - 1) div 2)" by simp
  have h5: "\<forall>s\<in>set (shard_slice [example_nan, example_inf] 2 0). \<not> all_finite (input_features s)"
    by (simp add: shard_slice_def example_nan_def example_inf_def all_finite_def is_finite_def)
  from h5 have h5': "list_all (\<lambda>s. \<not> all_finite (input_features s))
                       (shard_slice [example_nan, example_inf] 2 0)"
    by (simp only: list_all_iff)
  from shard_file_created_when_all_skipped [OF h1 h2 example_skipped_run h4 h5, of initial_world]
  have "files (exec example_skipped_ops initial_world) (shard_path_of ''out'' (0 + int 0)) = Some []"
    by auto
  with h1 h2 example_skipped_run h5' show ?thesis by (intro conjI)
qed

text \<open>
  Claim C10. When the output directory already holds a file at the path of a planned
  shard, the run does not fail and does not append: afterwards the file holds the records
  of the new run only, the same as after a run into an empty directory.
\<close>

theorem run_replaces_existing_shard:
  assumes "0 < shard_size" "1 \<le> num_proc"
    and "create_webdataset savez dataset output_dir shard_size num_proc shard_start_idx sched = Some r"
    and "i < nat ((int (length dataset) + shard_size - 1) div shard_size)"
    and "files w (shard_path_of output_dir (shard_start_idx + int i)) = Some old"
  shows "\<exists>ops. r = Inr ops
         \<and> files (exec ops w) (shard_path_of output_dir (shard_start_idx + int i))
             = Some (written_records savez (shard_slice dataset shard_size i))
         \<and> files (exec ops w) (shard_path_of output_dir (shard_start_idx + int i))
             = files (exec ops initial_world) (shard_path_of output_dir (shard_start_idx + int i))
         \<and> files (exec (save_shard savez output_dir (shard_start_idx + int i)
                           (shard_slice dataset shard_size i)) w)
             (shard_path_of output_dir (shard_start_idx + int i))
             = Some (written_records savez (shard_slice dataset shard_size i))"
  using run_shard_file [OF assms(1,2,3,4), of w] run_shard_file [OF assms(1,2,3,4), of initial_world]
  by (auto simp: save_shard_files)

theorem run_replaces_existing_shard_witness:
  "0 < (2::int) \<and> 1 \<le> (2::int)
   \<and> create_webdataset example_savez example_dataset ''out'' 2 2 0 [1, 0, 0, 1, 0, 1, 0]
       = Some (Inr example_interleaved_ops)
   \<and> files example_old_world (shard_path_of ''out'' (0 + int 0))
       = Some [\<lparr>key = ''sample000000'', input_npz = ''old'', labels_npz = ''old''\<rparr>,
               \<lparr>key = ''sample000001'', input_npz = ''old'', labels_npz = ''old''\<rparr>]
   \<and> files (exec example_interleaved_ops example_old_world) (shard_path_of ''out'' (0 + int 0))
       = Some (written_records example_savez (shard_slice example_dataset 2 0))
   \<and> files (exec example_interleaved_ops example_old_world) (shard_path_of ''out'' (0 + int 0))
       = files (exec example_interleaved_ops initial_world) (shard_path_of ''out'' (0 + int 0))"
proof -
  have h1: "0 < (2::int)" and h2: "1 \<le> (2::int)" by simp_all
  have h4: "0 < nat ((int (length example_dataset) + 2 - 1) div 2)"
    by (simp add: example_dataset_def)
  have h5: "files example_old_world (shard_path_of ''out'' (0 + int 0))
       = Some [\<lparr>key = ''sample000000'', input_npz = ''old'', labels_npz = ''old''\<rparr>,
               \<lparr>key = ''sample000001'', input_npz = ''old'', labels_npz = ''old''\<rparr>]"
    by (simp add: example_old_world_def example_path0)
  from run_replaces_existing_shard [OF h1 h2 example_interleaved_run h4 h5]
       h1 h2 example_interleaved_run h5
  show ?thesis by auto
qed

end
